theory Spec2Isabelle
  imports Main "HOL-Library.Sublist"
begin

section \<open>Text formatting (web/react/utils/text\_formatting.jsx)\<close>

text \<open>
  A shallow embedding of \<^verbatim>\<open>formatText\<close> and its passes. JavaScript strings are
  modelled as \<^typ>\<open>string\<close> (lists of 8-bit code units); the ordered \<^verbatim>\<open>Map\<close>
  that holds the tokens is an association list in insertion order; the \<^verbatim>\<open>options\<close>
  object is a record that is passed in and returned, since \<^verbatim>\<open>formatText\<close> writes to it.
  The collaborators that are not part of this file (Autolinker, marked, the user store and
  the constants) are the fields of an environment record.
\<close>

subsection \<open>JavaScript string primitives\<close>

definition digit_chars :: string where
  "digit_chars = ''0123456789''"

definition upper_chars :: string where
  "upper_chars = ''ABCDEFGHIJKLMNOPQRSTUVWXYZ''"

definition lower_chars :: string where
  "lower_chars = ''abcdefghijklmnopqrstuvwxyz''"

text \<open>The decimal rendering of a number inside a template literal: \<^verbatim>\<open>`${index}`\<close>.\<close>

function show_nat :: "nat \<Rightarrow> string" where
  "show_nat n =
     (if n < 10 then [digit_chars ! n] else show_nat (n div 10) @ [digit_chars ! (n mod 10)])"
  by pat_completeness auto
termination
  by (relation "measure id") auto

declare show_nat.simps [simp del]

text \<open>
  \<^verbatim>\<open>String.prototype.toLowerCase\<close> on the ASCII letters (it is applied to the text that
  \<^verbatim>\<open>[a-z0-9.\-_]\<close> captured, which is ASCII).
\<close>

definition to_lower_char :: "char \<Rightarrow> char" where
  "to_lower_char c = (case map_of (zip upper_chars lower_chars) c of Some l \<Rightarrow> l | None \<Rightarrow> c)"

definition toLowerCase :: "string \<Rightarrow> string" where
  "toLowerCase s = map to_lower_char s"

text \<open>
  The first occurrence of a pattern string: the text before it and the text after it.
  The empty pattern occurs at the start.
\<close>

fun split_first :: "string \<Rightarrow> string \<Rightarrow> (string \<times> string) option" where
  "split_first pat [] = (if pat = [] then Some ([], []) else None)"
| "split_first pat (c # cs) =
     (if prefix pat (c # cs) then Some ([], drop (length pat) (c # cs))
      else (case split_first pat cs of
              None \<Rightarrow> None
            | Some (pre_text, post_text) \<Rightarrow> Some (c # pre_text, post_text)))"

text \<open>
  The replacement text of \<^verbatim>\<open>String.prototype.replace\<close> when the replacement is a string
  (GetSubstitution of ECMAScript, for a string pattern, which has no capture groups):
  \<^verbatim>\<open>$$\<close> is a dollar sign, \<^verbatim>\<open>$&\<close> the matched text, \<^verbatim>\<open>$`\<close> the text before the
  match, \<^verbatim>\<open>$'\<close> the text after it; a dollar sign before anything else stands for itself.
\<close>

fun get_substitution :: "string \<Rightarrow> string \<Rightarrow> string \<Rightarrow> string \<Rightarrow> string" where
  "get_substitution matched pre_text post_text [] = []"
| "get_substitution matched pre_text post_text [c] = [c]"
| "get_substitution matched pre_text post_text (c # d # r) =
     (if c = CHR ''$'' \<and> d = CHR ''$'' then CHR ''$'' # get_substitution matched pre_text post_text r
      else if c = CHR ''$'' \<and> d = CHR ''&'' then matched @ get_substitution matched pre_text post_text r
      else if c = CHR ''$'' \<and> d = CHR 0x60 then pre_text @ get_substitution matched pre_text post_text r
      else if c = CHR ''$'' \<and> d = CHR 0x27 then post_text @ get_substitution matched pre_text post_text r
      else c # get_substitution matched pre_text post_text (d # r))"

text \<open>\<^verbatim>\<open>text.replace(pat, repl)\<close> with two strings: only the first occurrence is replaced.\<close>

definition replace_str :: "string \<Rightarrow> string \<Rightarrow> string \<Rightarrow> string" where
  "replace_str text pat repl =
     (case split_first pat text of
        None \<Rightarrow> text
      | Some (pre_text, post_text) \<Rightarrow> pre_text @ get_substitution pat pre_text post_text repl @ post_text)"

text \<open>
  \<^verbatim>\<open>text.replace(/c/g, repl)\<close> for a one-character pattern and a replacement with no
  dollar sign: every occurrence is replaced.
\<close>

definition replace_char_all :: "char \<Rightarrow> string \<Rightarrow> string \<Rightarrow> string" where
  "replace_char_all c repl text = concat (map (\<lambda>x. if x = c then repl else [x]) text)"

subsection \<open>sanitizeHtml\<close>

definition sanitizeHtml :: "string \<Rightarrow> string" where
  "sanitizeHtml text =
     (let output = text;
          output = replace_char_all (CHR ''&'') ''&amp;'' output;
          output = replace_char_all (CHR ''<'') ''&lt;'' output;
          output = replace_char_all (CHR ''>'') ''&gt;'' output;
          output = replace_char_all (CHR 0x27) ''&apos;'' output;
          output = replace_char_all (CHR 0x22) ''&quot;'' output
      in output)"

definition html_special :: "char set" where
  "html_special = {CHR ''&'', CHR ''<'', CHR ''>'', CHR 0x27, CHR 0x22}"

subsection \<open>The token store\<close>

text \<open>
  A token of the shared store is \<^verbatim>\<open>{value, originalText}\<close>; a token of the private
  map of markdown links is \<^verbatim>\<open>{value}\<close> only. \<^verbatim>\<open>replaceTokens\<close> reads the
  \<^verbatim>\<open>value\<close> field of either.
\<close>

record md_token =
  tvalue :: string

record token = md_token +
  originalText :: string

text \<open>
  A JavaScript \<^verbatim>\<open>Map\<close> with string keys, in insertion order. \<^verbatim>\<open>set\<close> on a key
  that is present overwrites its value in place; on a new key it appends the entry.
\<close>

definition map_set :: "string \<Rightarrow> 'v \<Rightarrow> (string \<times> 'v) list \<Rightarrow> (string \<times> 'v) list" where
  "map_set k v m =
     (if k \<in> fst ` set m then map (\<lambda>(k', v'). if k' = k then (k', v) else (k', v')) m
      else m @ [(k, v)])"

subsection \<open>Global replacement with a callback\<close>

text \<open>
  \<^verbatim>\<open>text.replace(regexp, fn)\<close> with the \<^verbatim>\<open>g\<close> flag cuts the text into the parts that
  did not match and the matches, from left to right, and calls \<^verbatim>\<open>fn\<close> on each match in
  order; what \<^verbatim>\<open>fn\<close> returns is inserted as it is. A match carries its text and its
  capture groups.
\<close>

datatype 'c seg = Plain string | Hit string 'c

text \<open>
  A regular expression is given by its anchored matcher: whether the position is the start
  of the text, and the text from the position on; the result is the length of the match and
  the capture groups. After a match the search goes on at its end, and one character
  further when the match is empty.
\<close>

type_synonym 'c matcher = "bool \<Rightarrow> string \<Rightarrow> (nat \<times> 'c) option"

function scan :: "'c matcher \<Rightarrow> bool \<Rightarrow> string \<Rightarrow> 'c seg list" where
  "scan m at_start [] =
     (case m at_start [] of None \<Rightarrow> [] | Some (len, caps) \<Rightarrow> [Hit [] caps])"
| "scan m at_start (c # cs) =
     (case m at_start (c # cs) of
        None \<Rightarrow> Plain [c] # scan m False cs
      | Some (len, caps) \<Rightarrow>
          if len = 0 then Hit [] caps # Plain [c] # scan m False cs
          else Hit (take len (c # cs)) caps # scan m False (drop len (c # cs)))"
  by pat_completeness auto
termination
  by (relation "measure (\<lambda>(m, at_start, s). length s)") auto

fun replace_segs :: "(string \<Rightarrow> 'c \<Rightarrow> 's \<Rightarrow> string \<times> 's) \<Rightarrow> 'c seg list \<Rightarrow> 's \<Rightarrow> string \<times> 's" where
  "replace_segs fn [] st = ([], st)"
| "replace_segs fn (Plain p # segs) st =
     (let (out, st') = replace_segs fn segs st in (p @ out, st'))"
| "replace_segs fn (Hit full caps # segs) st =
     (let (rep, st1) = fn full caps st;
          (out, st2) = replace_segs fn segs st1
      in (rep @ out, st2))"

subsection \<open>Character classes and the fixed regular expressions\<close>

definition is_alnum :: "char \<Rightarrow> bool" where
  "is_alnum c = (c \<in> set (lower_chars @ upper_chars @ digit_chars))"

text \<open>\<^verbatim>\<open>\w\<close>; \<^verbatim>\<open>\W\<close> is its complement.\<close>

definition is_word_char :: "char \<Rightarrow> bool" where
  "is_word_char c = (is_alnum c \<or> c = CHR ''_'')"

text \<open>\<^verbatim>\<open>\s\<close> on 8-bit code units: tab, line feed, vertical tab, form feed, carriage
  return, space and the no-break space.\<close>

definition is_space_char :: "char \<Rightarrow> bool" where
  "is_space_char c = (c \<in> set [CHR 0x09, CHR 0x0A, CHR 0x0B, CHR 0x0C, CHR 0x0D, CHR 0x20, CHR 0xA0])"

text \<open>\<^verbatim>\<open>[a-zA-Z0-9.\-_]\<close>, which is also \<^verbatim>\<open>[a-z0-9.\-_]\<close> under the \<^verbatim>\<open>i\<close> flag.\<close>

definition is_name_char :: "char \<Rightarrow> bool" where
  "is_name_char c = (is_alnum c \<or> c \<in> set ''.-_'')"

text \<open>
  \<^verbatim>\<open>\b\<close> between a character and the text after it: exactly one side is a word
  character (the end of the text is not one).
\<close>

definition next_is_word :: "string \<Rightarrow> bool" where
  "next_is_word s = (case s of [] \<Rightarrow> False | c # _ \<Rightarrow> is_word_char c)"

text \<open>
  A greedy run with backtracking: of the prefixes of \<open>run\<close> with at least one character,
  the longest whose last character \<open>c\<close> and following text satisfy \<open>ok\<close>.
\<close>

fun longest_end :: "(char \<Rightarrow> string \<Rightarrow> bool) \<Rightarrow> string \<Rightarrow> string \<Rightarrow> nat option" where
  "longest_end ok [] rest = None"
| "longest_end ok (c # cs) rest =
     (case longest_end ok cs rest of
        Some k \<Rightarrow> Some (Suc k)
      | None \<Rightarrow> if ok c (cs @ rest) then Some 1 else None)"

text \<open>\<^verbatim>\<open>/\]\([^\)]*\)/g\<close>: the tail of a markdown link.\<close>

definition markdown_link_matcher :: "unit matcher" where
  "markdown_link_matcher at_start s =
     (case s of
        a # b # r \<Rightarrow>
          if a = CHR '']'' \<and> b = CHR ''('' then
            (let run = takeWhile (\<lambda>c. c \<noteq> CHR '')'') r
             in (case drop (length run) r of
                   [] \<Rightarrow> None
                 | _ # _ \<Rightarrow> Some (length run + 3, ())))
          else None
      | _ \<Rightarrow> None)"

text \<open>
  \<^verbatim>\<open>@([a-z0-9.\-_]*[a-z0-9])\<close> with the \<^verbatim>\<open>i\<close> flag at the start of \<open>s\<close>: the captured
  username is the run of name characters cut after its last letter or digit.
\<close>

definition at_name :: "string \<Rightarrow> string option" where
  "at_name s =
     (case s of
        [] \<Rightarrow> None
      | c # r \<Rightarrow>
          if c = CHR ''@'' then
            (case longest_end (\<lambda>c rest. is_alnum c) (takeWhile is_name_char r) (dropWhile is_name_char r) of
               None \<Rightarrow> None
             | Some k \<Rightarrow> Some (take k r))
          else None)"

text \<open>
  \<^verbatim>\<open>/(^|\s)(@([a-z0-9.\-_]*[a-z0-9]))/gi\<close>; the groups are the prefix, the mention and
  the username.
\<close>

definition at_mention_matcher :: "(string \<times> string \<times> string) matcher" where
  "at_mention_matcher at_start s =
     (case (if at_start then at_name s else None) of
        Some username \<Rightarrow> Some (1 + length username, ([], CHR ''@'' # username, username))
      | None \<Rightarrow>
          (case s of
             [] \<Rightarrow> None
           | c # r \<Rightarrow>
               if is_space_char c then
                 (case at_name r of
                    None \<Rightarrow> None
                  | Some username \<Rightarrow>
                      Some (2 + length username, ([c], CHR ''@'' # username, username)))
               else None))"

text \<open>\<^verbatim>\<open>#[a-zA-Z0-9.\-_]+\<close> followed by \<^verbatim>\<open>\b\<close>, at the start of \<open>s\<close>.\<close>

definition hash_name :: "string \<Rightarrow> string option" where
  "hash_name s =
     (case s of
        [] \<Rightarrow> None
      | c # r \<Rightarrow>
          if c = CHR ''#'' then
            (case longest_end (\<lambda>c rest. is_word_char c \<noteq> next_is_word rest)
                    (takeWhile is_name_char r) (dropWhile is_name_char r) of
               None \<Rightarrow> None
             | Some k \<Rightarrow> Some (CHR ''#'' # take k r))
          else None)"

text \<open>\<^verbatim>\<open>/(^|\W)(#[a-zA-Z0-9.\-_]+)\b/g\<close>; the groups are the prefix and the hashtag.\<close>

definition hashtag_matcher :: "(string \<times> string) matcher" where
  "hashtag_matcher at_start s =
     (case (if at_start then hash_name s else None) of
        Some hashtag \<Rightarrow> Some (length hashtag, ([], hashtag))
      | None \<Rightarrow>
          (case s of
             [] \<Rightarrow> None
           | c # r \<Rightarrow>
               if \<not> is_word_char c then
                 (case hash_name r of
                    None \<Rightarrow> None
                  | Some hashtag \<Rightarrow> Some (1 + length hashtag, ([c], hashtag)))
               else None))"

subsection \<open>Regular expressions built from a search term or a mention key\<close>

text \<open>
  \<^verbatim>\<open>new RegExp(`(^|\\W)(${word})\\b`, 'gi')\<close> takes the word as regular-expression
  source. The model covers the sources made of ordinary characters, which match themselves
  without regard to case, and of the dot, which matches any character but a line break.
  Any other syntax character puts the source outside the model (\<open>None\<close>); among those
  are the sources on which the constructor throws.
\<close>

datatype atom = Lit char | AnyChar

definition syntax_chars :: string where
  "syntax_chars = [CHR 0x5C] @ ''^$.*+?()[]{}|''"

fun parse_atoms :: "string \<Rightarrow> atom list option" where
  "parse_atoms [] = Some []"
| "parse_atoms (c # cs) =
     (if c = CHR ''.'' then map_option (Cons AnyChar) (parse_atoms cs)
      else if c \<in> set syntax_chars then None
      else map_option (Cons (Lit c)) (parse_atoms cs))"

text \<open>The canonical form of a character under the \<^verbatim>\<open>i\<close> flag: ASCII letters in upper case.\<close>

definition canonicalize :: "char \<Rightarrow> char" where
  "canonicalize c = (case map_of (zip lower_chars upper_chars) c of Some u \<Rightarrow> u | None \<Rightarrow> c)"

fun atom_matches :: "atom \<Rightarrow> char \<Rightarrow> bool" where
  "atom_matches (Lit l) c = (canonicalize c = canonicalize l)"
| "atom_matches AnyChar c = (c \<noteq> CHR 0x0A \<and> c \<noteq> CHR 0x0D)"

fun match_atoms :: "atom list \<Rightarrow> string \<Rightarrow> bool" where
  "match_atoms [] s = True"
| "match_atoms (a # as) [] = False"
| "match_atoms (a # as) (c # cs) = (atom_matches a c \<and> match_atoms as cs)"

text \<open>
  \<^verbatim>\<open>(word)\b\<close> at the start of \<open>s\<close>, after the character \<open>prev\<close> (if any): the
  captured word.
\<close>

definition word_at :: "atom list \<Rightarrow> char option \<Rightarrow> string \<Rightarrow> string option" where
  "word_at atoms prev s =
     (let n = length atoms;
          w = take n s;
          left_word = (if w = [] then (case prev of None \<Rightarrow> False | Some p \<Rightarrow> is_word_char p)
                       else is_word_char (last w))
      in if match_atoms atoms s \<and> left_word \<noteq> next_is_word (drop n s) then Some w else None)"

definition word_matcher :: "atom list \<Rightarrow> (string \<times> string) matcher" where
  "word_matcher atoms at_start s =
     (case (if at_start then word_at atoms None s else None) of
        Some w \<Rightarrow> Some (length w, ([], w))
      | None \<Rightarrow>
          (case s of
             [] \<Rightarrow> None
           | c # r \<Rightarrow>
               if \<not> is_word_char c then
                 (case word_at atoms (Some c) r of
                    None \<Rightarrow> None
                  | Some w \<Rightarrow> Some (1 + length w, ([c], w)))
               else None))"

definition word_regexp :: "string \<Rightarrow> (string \<times> string) matcher option" where
  "word_regexp word = map_option word_matcher (parse_atoms word)"

subsection \<open>The collaborators\<close>

text \<open>
  \<open>autolinker\<close> is \<^verbatim>\<open>Autolinker.link\<close> with URLs and e-mail addresses on: the text cut
  at the links it finds. \<open>marked\<close> is the markdown renderer with this file's settings.
  \<open>SPECIAL_MENTIONS\<close> is the constant of that name; \<open>getProfileByUsername\<close> says
  whether the user store has a profile with the name; \<open>getCurrentMentionKeys\<close> is the
  viewer's list of mention keys.
\<close>

record env =
  autolinker :: "string \<Rightarrow> unit seg list"
  marked :: "string \<Rightarrow> string"
  SPECIAL_MENTIONS :: "string list"
  getProfileByUsername :: "string \<Rightarrow> bool"
  getCurrentMentionKeys :: "string list"

subsection \<open>replaceTokens\<close>

definition replaceTokens :: "string \<Rightarrow> (string \<times> 'a md_token_scheme) list \<Rightarrow> string" where
  "replaceTokens text tokens =
     fold (\<lambda>alias output.
             case map_of tokens alias of
               None \<Rightarrow> output
             | Some token \<Rightarrow> replace_str output alias (tvalue token))
          (rev (map fst tokens)) text"

subsection \<open>autolinkUrls\<close>

definition sq :: string where
  "sq = [CHR 0x27]"

definition replaceUrlWithToken ::
  "string \<Rightarrow> unit \<Rightarrow> (string \<times> token) list \<Rightarrow> string \<times> (string \<times> token) list" where
  "replaceUrlWithToken linkText u tokens =
     (let url = (if \<not> prefix ''http'' linkText then ''http://'' @ linkText else linkText);
          index = length tokens;
          alias = ''MM_LINK'' @ show_nat index
      in (alias,
          map_set alias
            \<lparr>tvalue = ''<a class='theme' target='_blank' href='' @ sq @ url @ sq @ ''>''
                       @ linkText @ ''</a>'',
             originalText = linkText\<rparr> tokens))"

definition replaceMarkdownLinkWithToken ::
  "string \<Rightarrow> unit \<Rightarrow> (string \<times> md_token) list \<Rightarrow> string \<times> (string \<times> md_token) list" where
  "replaceMarkdownLinkWithToken markdownLink u markdownLinkTokens =
     (let index = length markdownLinkTokens;
          alias = ''MM_MARKDOWNLINK'' @ show_nat index
      in (alias, map_set alias \<lparr>tvalue = markdownLink\<rparr> markdownLinkTokens))"

text \<open>The text that the link detector is given: with the markdown link tails shielded.\<close>

definition shield_markdown_links :: "string \<Rightarrow> bool \<Rightarrow> string \<times> (string \<times> md_token) list" where
  "shield_markdown_links text markdown =
     (if markdown then replace_segs replaceMarkdownLinkWithToken (scan markdown_link_matcher True text) []
      else (text, []))"

definition autolinkUrls ::
  "env \<Rightarrow> string \<Rightarrow> (string \<times> token) list \<Rightarrow> bool \<Rightarrow> string \<times> (string \<times> token) list" where
  "autolinkUrls e text tokens markdown =
     (let (output, markdownLinkTokens) = shield_markdown_links text markdown;
          (output, tokens) = replace_segs replaceUrlWithToken (autolinker e output) tokens;
          output = (if markdown then replaceTokens output markdownLinkTokens else output)
      in (output, tokens))"

subsection \<open>autolinkAtMentions\<close>

definition replaceAtMentionWithToken ::
  "env \<Rightarrow> string \<Rightarrow> string \<times> string \<times> string \<Rightarrow> (string \<times> token) list
   \<Rightarrow> string \<times> (string \<times> token) list" where
  "replaceAtMentionWithToken e fullMatch caps tokens =
     (case caps of (pre, mention, username) \<Rightarrow>
        (let usernameLower = toLowerCase username
         in if usernameLower \<in> set (SPECIAL_MENTIONS e) \<or> getProfileByUsername e usernameLower then
              (let index = length tokens;
                   alias = ''MM_ATMENTION'' @ show_nat index
               in (pre @ alias,
                   map_set alias
                     \<lparr>tvalue = ''<a class='mention-link' href='#' data-mention='' @ sq
                                @ usernameLower @ sq @ ''>'' @ mention @ ''</a>'',
                      originalText = mention\<rparr> tokens))
            else (fullMatch, tokens)))"

definition autolinkAtMentions ::
  "env \<Rightarrow> string \<Rightarrow> (string \<times> token) list \<Rightarrow> string \<times> (string \<times> token) list" where
  "autolinkAtMentions e text tokens =
     replace_segs (replaceAtMentionWithToken e) (scan at_mention_matcher True text) tokens"

subsection \<open>Wrapping the tokens that are already in the store\<close>

text \<open>
  The first loop of \<^verbatim>\<open>autolinkHashtags\<close>, \<^verbatim>\<open>highlightSearchTerm\<close> and
  \<^verbatim>\<open>highlightCurrentMentions\<close>: for each token of the store, in order, that satisfies
  the test, a new token goes into \<^verbatim>\<open>newTokens\<close> under the alias made of the category
  and of \<^verbatim>\<open>tokens.size + newTokens.size\<close>, and the first occurrence of the old alias in
  the text becomes the new alias. The second loop then sets the new tokens in the store.
\<close>

fun wrap_loop ::
  "(token \<Rightarrow> bool) \<Rightarrow> string \<Rightarrow> (string \<Rightarrow> token \<Rightarrow> string) \<Rightarrow> nat
   \<Rightarrow> (string \<times> token) list \<Rightarrow> string \<Rightarrow> (string \<times> token) list
   \<Rightarrow> string \<times> (string \<times> token) list" where
  "wrap_loop test category mk_value tokens_size [] output newTokens = (output, newTokens)"
| "wrap_loop test category mk_value tokens_size ((alias, token) # rest) output newTokens =
     (if test token then
        (let index = tokens_size + length newTokens;
             newAlias = category @ show_nat index;
             newTokens' = map_set newAlias
                            \<lparr>tvalue = mk_value alias token, originalText = originalText token\<rparr>
                            newTokens;
             output' = replace_str output alias newAlias
         in wrap_loop test category mk_value tokens_size rest output' newTokens')
      else wrap_loop test category mk_value tokens_size rest output newTokens)"

definition set_all :: "(string \<times> token) list \<Rightarrow> (string \<times> token) list \<Rightarrow> (string \<times> token) list" where
  "set_all newTokens tokens = fold (\<lambda>newToken tokens. map_set (fst newToken) (snd newToken) tokens) newTokens tokens"

definition wrap_tokens ::
  "(token \<Rightarrow> bool) \<Rightarrow> string \<Rightarrow> (string \<Rightarrow> token \<Rightarrow> string)
   \<Rightarrow> string \<Rightarrow> (string \<times> token) list \<Rightarrow> string \<times> (string \<times> token) list" where
  "wrap_tokens test category mk_value text tokens =
     (let (output, newTokens) = wrap_loop test category mk_value (length tokens) tokens text []
      in (output, set_all newTokens tokens))"

text \<open>
  The callback of the scan that follows: a new token under the alias made of the category
  and of \<^verbatim>\<open>tokens.size\<close>; the prefix stays in front of the alias.
\<close>

definition replace_with_token ::
  "string \<Rightarrow> (string \<Rightarrow> string) \<Rightarrow> string \<Rightarrow> string \<times> string \<Rightarrow> (string \<times> token) list
   \<Rightarrow> string \<times> (string \<times> token) list" where
  "replace_with_token category mk_value fullMatch caps tokens =
     (case caps of (pre, word) \<Rightarrow>
        (let index = length tokens;
             alias = category @ show_nat index
         in (pre @ alias, map_set alias \<lparr>tvalue = mk_value word, originalText = word\<rparr> tokens)))"

subsection \<open>autolinkHashtags\<close>

definition hashtag_anchor :: "string \<Rightarrow> string" where
  "hashtag_anchor hashtag =
     ''<a class='mention-link' href='#' data-hashtag='' @ sq @ hashtag @ sq @ ''>'' @ hashtag @ ''</a>''"

definition autolinkHashtags ::
  "string \<Rightarrow> (string \<times> token) list \<Rightarrow> string \<times> (string \<times> token) list" where
  "autolinkHashtags text tokens =
     (let (output, tokens) =
            wrap_tokens (\<lambda>token. prefix ''#'' (originalText token)) ''MM_HASHTAG''
              (\<lambda>alias token. hashtag_anchor (originalText token)) text tokens
      in replace_segs (replace_with_token ''MM_HASHTAG'' hashtag_anchor)
           (scan hashtag_matcher True output) tokens)"

subsection \<open>highlightSearchTerm\<close>

definition search_span :: "string \<Rightarrow> string" where
  "search_span inner = ''<span class='search-highlight'>'' @ inner @ ''</span>''"

definition highlightSearchTerm ::
  "string \<Rightarrow> (string \<times> token) list \<Rightarrow> string \<Rightarrow> (string \<times> (string \<times> token) list) option" where
  "highlightSearchTerm text tokens searchTerm =
     (let (output, tokens) =
            wrap_tokens (\<lambda>token. originalText token = searchTerm) ''MM_SEARCHTERM''
              (\<lambda>alias token. search_span alias) text tokens
      in (case word_regexp searchTerm of
            None \<Rightarrow> None
          | Some regexp \<Rightarrow>
              Some (replace_segs (replace_with_token ''MM_SEARCHTERM'' search_span)
                      (scan regexp True output) tokens)))"

subsection \<open>highlightCurrentMentions\<close>

definition mention_span :: "string \<Rightarrow> string" where
  "mention_span inner = ''<span class='mention-highlight'>'' @ inner @ ''</span>''"

fun highlight_keys ::
  "string list \<Rightarrow> string \<Rightarrow> (string \<times> token) list \<Rightarrow> (string \<times> (string \<times> token) list) option" where
  "highlight_keys [] output tokens = Some (output, tokens)"
| "highlight_keys (mention # rest) output tokens =
     (case word_regexp mention of
        None \<Rightarrow> None
      | Some regexp \<Rightarrow>
          (let (output', tokens') =
                 replace_segs (replace_with_token ''MM_SELFMENTION'' mention_span)
                   (scan regexp True output) tokens
           in highlight_keys rest output' tokens'))"

definition highlightCurrentMentions ::
  "env \<Rightarrow> string \<Rightarrow> (string \<times> token) list \<Rightarrow> (string \<times> (string \<times> token) list) option" where
  "highlightCurrentMentions e text tokens =
     (let mentionKeys = getCurrentMentionKeys e;
          (output, tokens) =
            wrap_tokens (\<lambda>token. originalText token \<in> set mentionKeys) ''MM_SELFMENTION''
              (\<lambda>alias token. mention_span alias) text tokens
      in highlight_keys (getCurrentMentionKeys e) output tokens)"

subsection \<open>formatText\<close>

definition replaceNewlines :: "string \<Rightarrow> string" where
  "replaceNewlines text = replace_char_all (CHR 0x0A) '' '' text"

text \<open>
  The options object. A property is absent (\<open>None\<close>) or present; a present flag is
  modelled by its truthiness.
\<close>

record options =
  markdown :: "bool option"
  searchTerm :: "string option"
  mentionHighlight :: "bool option"
  singleline :: "bool option"

text \<open>The first statement of \<^verbatim>\<open>formatText\<close>: the default of \<^verbatim>\<open>markdown\<close> is written
  to the options object itself.\<close>

definition default_markdown :: "options \<Rightarrow> options" where
  "default_markdown opts = (if markdown opts = None then opts\<lparr>markdown := Some True\<rparr> else opts)"

text \<open>
  The passes that fill the store, up to the point where \<^verbatim>\<open>formatText\<close> calls the
  markdown renderer: the text with the aliases in it, and the store.
\<close>

definition tokenize :: "env \<Rightarrow> string \<Rightarrow> options \<Rightarrow> (string \<times> (string \<times> token) list) option" where
  "tokenize e text opts =
     (let output = (if markdown opts \<noteq> Some True then sanitizeHtml text else text);
          tokens = [];
          (output, tokens) = autolinkUrls e output tokens (markdown opts = Some True);
          (output, tokens) = autolinkAtMentions e output tokens;
          (output, tokens) = autolinkHashtags output tokens;
          searched = (case searchTerm opts of
                        None \<Rightarrow> Some (output, tokens)
                      | Some word \<Rightarrow> if word = [] then Some (output, tokens)
                                     else highlightSearchTerm output tokens word)
      in (case searched of
            None \<Rightarrow> None
          | Some (output, tokens) \<Rightarrow>
              if mentionHighlight opts = None \<or> mentionHighlight opts = Some True
              then highlightCurrentMentions e output tokens
              else Some (output, tokens)))"

text \<open>
  \<^verbatim>\<open>formatText\<close> returns the formatted text, if the regular expressions of the call are
  in the model, and leaves the options object as returned here.
\<close>

definition formatText :: "env \<Rightarrow> string \<Rightarrow> options \<Rightarrow> string option \<times> options" where
  "formatText e text options =
     (let options = default_markdown options
      in (case tokenize e text options of
            None \<Rightarrow> (None, options)
          | Some (output, tokens) \<Rightarrow>
              (let output = (if markdown options = Some True then marked e output else output);
                   output = replaceTokens output tokens;
                   output = (if singleline options = Some True then replaceNewlines output else output)
               in (Some output, options))))"

subsection \<open>Collaborators and options of the examples\<close>

text \<open>
  The examples run with markdown off, so that the renderer is not called (the example
  environment has the identity in its place), or name the renderer they run with.
  \<open>no_links\<close> is what the link detector returns on a text with no URL and no e-mail
  address; \<open>one_link\<close> is what it returns on the text made of \<open>lead\<close>, \<open>link\<close>
  and \<open>trail\<close> when \<open>link\<close> is the one link it finds there.
\<close>

definition no_links :: "string \<Rightarrow> unit seg list" where
  "no_links text = [Plain text]"

definition one_link :: "string \<Rightarrow> string \<Rightarrow> string \<Rightarrow> string \<Rightarrow> unit seg list" where
  "one_link lead link trail text =
     (if text = lead @ link @ trail then [Plain lead, Hit link (), Plain trail] else [Plain text])"

definition example_env :: "(string \<Rightarrow> unit seg list) \<Rightarrow> string list \<Rightarrow> env" where
  "example_env detector keys =
     \<lparr>autolinker = detector, marked = (\<lambda>text. text), SPECIAL_MENTIONS = [''all'', ''channel''],
      getProfileByUsername = (\<lambda>username. False), getCurrentMentionKeys = keys\<rparr>"

definition plain_options :: options where
  "plain_options = \<lparr>markdown = Some False, searchTerm = None, mentionHighlight = None, singleline = None\<rparr>"

subsection \<open>Notions used in the statements\<close>

text \<open>The text of a segment, and whether a mention candidate is accepted.\<close>

fun seg_text :: "'c seg \<Rightarrow> string" where
  "seg_text (Plain p) = p"
| "seg_text (Hit full caps) = full"

definition known_mention :: "env \<Rightarrow> string \<Rightarrow> bool" where
  "known_mention e username =
     (toLowerCase username \<in> set (SPECIAL_MENTIONS e) \<or> getProfileByUsername e (toLowerCase username))"

fun hit_usernames :: "(string \<times> string \<times> string) seg list \<Rightarrow> string list" where
  "hit_usernames [] = []"
| "hit_usernames (Plain p # segs) = hit_usernames segs"
| "hit_usernames (Hit full (pre, mention, username) # segs) = username # hit_usernames segs"

text \<open>The categories of the aliases of the shared store.\<close>

definition categories :: "string list" where
  "categories = [''MM_LINK'', ''MM_ATMENTION'', ''MM_HASHTAG'', ''MM_SEARCHTERM'', ''MM_SELFMENTION'']"

text \<open>
  The keys of a map are a category followed by the position of the entry, counted from
  \<open>n\<close>; for the shared store \<open>n\<close> is 0, for the pending \<^verbatim>\<open>newTokens\<close> it is the size
  of the store.
\<close>

definition indexed_from :: "nat \<Rightarrow> (string \<times> 'v) list \<Rightarrow> bool" where
  "indexed_from n m =
     list_all (\<lambda>(j, k). k \<in> set (map (\<lambda>c. c @ show_nat (n + j)) categories))
       (zip [0..<length m] (map fst m))"

text \<open>
  Notions for the resolver. A text starts with a digit; what a segment of a scan becomes
  once its alias is resolved; a list of segments in which an alias is never followed by a
  digit (the flag says whether an alias comes right before the list); the characters of a
  segment; the words that a scan matched; the alias of the hashtag with a given index; and
  a text in which no occurrence of a pattern starts, whatever follows it (or whatever
  follows it that does not start with a digit).
\<close>

definition digit_start :: "string \<Rightarrow> bool" where
  "digit_start s = (case s of [] \<Rightarrow> False | c # _ \<Rightarrow> c \<in> set digit_chars)"






definition passes :: "string \<Rightarrow> string \<Rightarrow> bool" where
  "passes pat x =
     (\<forall>y. split_first pat (x @ y) = map_option (\<lambda>(u, w). (x @ u, w)) (split_first pat y))"

definition passes_nd :: "string \<Rightarrow> string \<Rightarrow> bool" where
  "passes_nd pat x =
     (\<forall>y. digit_start y \<or>
          split_first pat (x @ y) = map_option (\<lambda>(u, w). (x @ u, w)) (split_first pat y))"

text \<open>
  What a scan with the callback \<open>replace_with_token\<close> leaves when every registration
  appends: the text with the alias of the category and of the running index in place of each
  match, and the entries that the store gains.
\<close>

fun scan_out :: "string \<Rightarrow> nat \<Rightarrow> (string \<times> string) seg list \<Rightarrow> string" where
  "scan_out c n [] = []"
| "scan_out c n (Plain p # segs) = p @ scan_out c n segs"
| "scan_out c n (Hit full (pre, w) # segs) = pre @ c @ show_nat n @ scan_out c (Suc n) segs"

fun scan_new ::
  "string \<Rightarrow> (string \<Rightarrow> string) \<Rightarrow> nat \<Rightarrow> (string \<times> string) seg list \<Rightarrow> (string \<times> token) list" where
  "scan_new c mk n [] = []"
| "scan_new c mk n (Plain p # segs) = scan_new c mk n segs"
| "scan_new c mk n (Hit full (pre, w) # segs) =
     (c @ show_nat n, \<lparr>tvalue = mk w, originalText = w\<rparr>) # scan_new c mk (Suc n) segs"

text \<open>
  The store that \<^verbatim>\<open>formatText\<close> builds for the text of eleven hashtags
  \<^verbatim>\<open>#a #b #c #d #e #f #g #h #i #j #k\<close> when the search term and the viewer's only mention
  key are both \<^verbatim>\<open>#b\<close>.
\<close>

definition eleven_store :: "(string \<times> token) list" where
  "eleven_store =
     [(''MM_HASHTAG0'', \<lparr>tvalue = hashtag_anchor ''#a'', originalText = ''#a''\<rparr>),
      (''MM_HASHTAG1'', \<lparr>tvalue = hashtag_anchor ''#b'', originalText = ''#b''\<rparr>),
      (''MM_HASHTAG2'', \<lparr>tvalue = hashtag_anchor ''#c'', originalText = ''#c''\<rparr>),
      (''MM_HASHTAG3'', \<lparr>tvalue = hashtag_anchor ''#d'', originalText = ''#d''\<rparr>),
      (''MM_HASHTAG4'', \<lparr>tvalue = hashtag_anchor ''#e'', originalText = ''#e''\<rparr>),
      (''MM_HASHTAG5'', \<lparr>tvalue = hashtag_anchor ''#f'', originalText = ''#f''\<rparr>),
      (''MM_HASHTAG6'', \<lparr>tvalue = hashtag_anchor ''#g'', originalText = ''#g''\<rparr>),
      (''MM_HASHTAG7'', \<lparr>tvalue = hashtag_anchor ''#h'', originalText = ''#h''\<rparr>),
      (''MM_HASHTAG8'', \<lparr>tvalue = hashtag_anchor ''#i'', originalText = ''#i''\<rparr>),
      (''MM_HASHTAG9'', \<lparr>tvalue = hashtag_anchor ''#j'', originalText = ''#j''\<rparr>),
      (''MM_HASHTAG10'', \<lparr>tvalue = hashtag_anchor ''#k'', originalText = ''#k''\<rparr>),
      (''MM_SEARCHTERM11'', \<lparr>tvalue = search_span ''MM_HASHTAG1'', originalText = ''#b''\<rparr>),
      (''MM_SELFMENTION12'', \<lparr>tvalue = mention_span ''MM_HASHTAG1'', originalText = ''#b''\<rparr>),
      (''MM_SELFMENTION13'', \<lparr>tvalue = mention_span ''MM_SEARCHTERM11'', originalText = ''#b''\<rparr>)]"


section \<open>Properties\<close>

subsection \<open>The escaper\<close>

lemma replace_char_all_absent: "c \<notin> set s \<Longrightarrow> replace_char_all c repl s = s"
  by (induction s) (auto simp: replace_char_all_def)

lemma sanitizeHtml_plain: "set x \<inter> html_special = {} \<Longrightarrow> sanitizeHtml x = x"
  by (simp add: sanitizeHtml_def html_special_def replace_char_all_absent)

text \<open>
  C8 (idempotent escaping): on a string with none of the characters
  \<^verbatim>\<open>& < > ' "\<close>, escaping twice is the same as escaping once.
\<close>

theorem sanitizeHtml_idempotent_on_plain:
  "set x \<inter> html_special = {} \<Longrightarrow> sanitizeHtml (sanitizeHtml x) = sanitizeHtml x"
  by (simp add: sanitizeHtml_plain)

theorem sanitizeHtml_idempotent_on_plain_witness:
  "set ''hello @bob #tag'' \<inter> html_special = {}
   \<and> sanitizeHtml (sanitizeHtml ''hello @bob #tag'') = sanitizeHtml ''hello @bob #tag''"
  using sanitizeHtml_idempotent_on_plain [of "''hello @bob #tag''"]
  by (simp add: html_special_def)

subsection \<open>The options object\<close>

text \<open>
  C10 (the options argument is written to): after the call the options object has
  \<^verbatim>\<open>markdown = true\<close> if it had no such property, and is otherwise as it was; no other
  field changes.
\<close>

theorem formatText_writes_markdown_default:
  "snd (formatText e text opts)
     = (if markdown opts = None then opts\<lparr>markdown := Some True\<rparr> else opts)"
  by (simp add: formatText_def default_markdown_def Let_def split: option.splits prod.splits)

subsection \<open>Maps and string replacement\<close>

lemma map_of_overwrite:
  "k \<in> fst ` set m \<Longrightarrow>
   map_of (map (\<lambda>(k', v'). if k' = k then (k', v) else (k', v')) m) k = Some v"
  by (induction m) auto

lemma map_of_map_set: "map_of (map_set k v m) k = Some v"
proof (cases "k \<in> fst ` set m")
  case True
  then show ?thesis by (simp add: map_set_def map_of_overwrite)
next
  case False
  then have "map_of m k = None" by (simp add: map_of_eq_None_iff)
  with False show ?thesis by (simp add: map_set_def map_add_def)
qed

lemma get_substitution_plain:
  "CHR ''$'' \<notin> set repl \<Longrightarrow> get_substitution matched u w repl = repl"
  by (induction matched u w repl rule: get_substitution.induct) auto

lemma replace_str_found:
  "split_first pat s = Some (u, w) \<Longrightarrow> CHR ''$'' \<notin> set repl \<Longrightarrow>
   replace_str s pat repl = u @ repl @ w"
  by (simp add: replace_str_def get_substitution_plain)

lemma replace_str_absent: "split_first pat s = None \<Longrightarrow> replace_str s pat repl = s"
  by (simp add: replace_str_def)

text \<open>The resolver starts with the entry that was registered last.\<close>

lemma replaceTokens_snoc:
  assumes "b \<notin> fst ` set ts"
  shows "replaceTokens s (ts @ [(b, B)]) = replaceTokens (replace_str s b (tvalue B)) ts"
proof -
  have lookup: "map_of (ts @ [(b, B)]) k = map_of ts k" if "k \<in> fst ` set ts" for k
    using that by (auto simp: map_add_def map_of_eq_None_iff split: option.splits)
  have "map_of ts b = None"
    using assms by (simp add: map_of_eq_None_iff)
  then have first: "map_of (ts @ [(b, B)]) b = Some B"
    by (simp add: map_add_def)
  have rest: "fold (\<lambda>alias output. case map_of (ts @ [(b, B)]) alias of None \<Rightarrow> output
                 | Some token \<Rightarrow> replace_str output alias (tvalue token)) ks t
            = fold (\<lambda>alias output. case map_of ts alias of None \<Rightarrow> output
                 | Some token \<Rightarrow> replace_str output alias (tvalue token)) ks t"
    if "set ks \<subseteq> fst ` set ts" for ks t
    using that by (induction ks arbitrary: t) (auto simp del: map_of_append simp: lookup)
  show ?thesis
    unfolding replaceTokens_def using first rest [of "rev (map fst ts)"]
    by (simp del: map_of_append)
qed

subsection \<open>The link tokenizer\<close>

text \<open>
  C4 (markdown-link shielding), at a link tail with two dollar signs: the detector finds no
  link, and the text that comes back has one dollar sign, since the tail is put back as a
  replacement pattern.
\<close>

theorem markdown_tail_not_restored:
  "autolinkUrls (example_env no_links []) ''[a](b$$c)'' [] True = (''[a](b$c)'', [])"
  by code_simp

text \<open>What the detector is given for the example of the specification.\<close>

lemma markdown_tail_shielded:
  "shield_markdown_links ''[text](http://example.com)'' True
     = (''[textMM_MARKDOWNLINK0'', [(''MM_MARKDOWNLINK0'', \<lparr>tvalue = ''](http://example.com)''\<rparr>)])"
  by code_simp

text \<open>
  C6 (URL normalization), at a bare domain that begins with the letters \<^verbatim>\<open>http\<close>:
  the link target is the domain as it is, with no scheme in front.
\<close>

theorem http_prefixed_domain_not_normalized:
  "replaceUrlWithToken ''httpbin.org'' () []
     = (''MM_LINK0'',
        [(''MM_LINK0'',
          \<lparr>tvalue = ''<a class='theme' target='_blank' href='httpbin.org'>httpbin.org</a>'',
           originalText = ''httpbin.org''\<rparr>)])
   \<and> fst (formatText (example_env (one_link ''see '' ''httpbin.org'' []) []) ''see httpbin.org''
            plain_options)
     = Some ''see <a class='theme' target='_blank' href='httpbin.org'>httpbin.org</a>''"
  by code_simp

text \<open>The token of a link, and the example of the specification.\<close>

lemma replaceUrlWithToken_registers:
  "replaceUrlWithToken linkText u tokens = (alias, tokens') \<Longrightarrow>
   alias = ''MM_LINK'' @ show_nat (length tokens)
   \<and> map_of tokens' alias
       = Some \<lparr>tvalue = ''<a class='theme' target='_blank' href='' @ sq
                         @ (if prefix ''http'' linkText then linkText else ''http://'' @ linkText)
                         @ sq @ ''>'' @ linkText @ ''</a>'',
                originalText = linkText\<rparr>"
  by (auto simp: replaceUrlWithToken_def Let_def map_of_map_set)

lemma example_com_normalized:
  "fst (formatText (example_env (one_link ''visit '' ''example.com'' '' now'') [])
          ''visit example.com now'' plain_options)
     = Some ''visit <a class='theme' target='_blank' href='http://example.com'>example.com</a> now''"
  by code_simp

subsection \<open>The mention tokenizer\<close>

lemma scan_concat: "concat (map seg_text (scan m b s)) = s"
proof (induction m b s rule: scan.induct)
  case (1 m at_start)
  then show ?case by (auto split: option.splits)
next
  case (2 m at_start c cs)
  then show ?case by (auto split: option.splits)
qed

lemma unknown_hits_unchanged:
  "\<forall>username \<in> set (hit_usernames segs). \<not> known_mention e username \<Longrightarrow>
   replace_segs (replaceAtMentionWithToken e) segs tokens = (concat (map seg_text segs), tokens)"
proof (induction segs rule: hit_usernames.induct)
  case 1
  then show ?case by simp
next
  case (2 p segs)
  then show ?case by simp
next
  case (3 full pre mention username segs)
  then show ?case by (simp add: replaceAtMentionWithToken_def known_mention_def Let_def)
qed

text \<open>
  C7 (unknown mention left literal), as the claim states it, fails: the name after the
  \<^verbatim>\<open>@\<close> is still open to the later passes. Here the viewer has the mention key
  \<^verbatim>\<open>bob\<close> and no user is called so.
\<close>

theorem unknown_mention_counterexample:
  "\<not> known_mention (example_env no_links [''bob'']) ''bob''
   \<and> fst (formatText (example_env no_links [''bob'']) ''hello @bob'' plain_options)
       = Some ''hello @<span class='mention-highlight'>bob</span>''
   \<and> \<not> sublist ''@bob'' ''hello @<span class='mention-highlight'>bob</span>''"
  by code_simp

text \<open>
  C7 (unknown mention left literal), amended: the mention tokenizer leaves a candidate
  that is not accepted as it is and registers nothing for it; when no candidate of a text
  is accepted, the pass returns the text and the store as they were.
\<close>

theorem unknown_mention_left_by_tokenizer:
  "(\<not> known_mention e username \<longrightarrow>
      replaceAtMentionWithToken e fullMatch (pre, mention, username) tokens = (fullMatch, tokens))
   \<and> ((\<forall>username \<in> set (hit_usernames (scan at_mention_matcher True text)).
          \<not> known_mention e username)
        \<longrightarrow> autolinkAtMentions e text tokens = (text, tokens))"
  by (simp add: autolinkAtMentions_def unknown_hits_unchanged scan_concat
        replaceAtMentionWithToken_def known_mention_def Let_def)

theorem unknown_mention_left_by_tokenizer_witness:
  "\<not> known_mention (example_env no_links []) ''nosuchuser''
   \<and> replaceAtMentionWithToken (example_env no_links []) '' @nosuchuser''
        ('' '', ''@nosuchuser'', ''nosuchuser'') [] = ('' @nosuchuser'', [])
   \<and> hit_usernames (scan at_mention_matcher True ''hello @nosuchuser'') = [''nosuchuser'']
   \<and> autolinkAtMentions (example_env no_links []) ''hello @nosuchuser'' [] = (''hello @nosuchuser'', [])
   \<and> fst (formatText (example_env no_links []) ''hello @nosuchuser'' plain_options)
       = Some ''hello @nosuchuser''"
proof -
  have h1: "\<not> known_mention (example_env no_links []) ''nosuchuser''"
    by code_simp
  have h2: "\<forall>username \<in> set (hit_usernames (scan at_mention_matcher True ''hello @nosuchuser'')).
      \<not> known_mention (example_env no_links []) username"
    by code_simp
  have out: "fst (formatText (example_env no_links []) ''hello @nosuchuser'' plain_options)
       = Some ''hello @nosuchuser''"
    by code_simp
  have names: "hit_usernames (scan at_mention_matcher True ''hello @nosuchuser'') = [''nosuchuser'']"
    by code_simp
  from unknown_mention_left_by_tokenizer
         [of "example_env no_links []" "''nosuchuser''" "'' @nosuchuser''" "'' ''" "''@nosuchuser''" "[]"
             "''hello @nosuchuser''"]
  show ?thesis using h1 h2 out names by blast
qed

subsection \<open>The self-mention highlighter\<close>

text \<open>
  C5 (mention keys matched as literals), at a key with a dot: the key \<^verbatim>\<open>john.doe\<close> is
  read as a regular expression, in which the dot stands for any character, and the text
  \<^verbatim>\<open>john-doe\<close>, which does not contain the key, is highlighted.
\<close>

theorem mention_key_read_as_pattern:
  "fst (formatText (example_env no_links [''john.doe'']) ''ask john-doe now'' plain_options)
     = Some ''ask <span class='mention-highlight'>john-doe</span> now''
   \<and> \<not> sublist ''john.doe'' ''ask john-doe now''"
  by code_simp

subsection \<open>The keys of the store\<close>

lemma digit_chars_nth_inj:
  "i < 10 \<Longrightarrow> j < 10 \<Longrightarrow> digit_chars ! i = digit_chars ! j \<Longrightarrow> i = j"
proof -
  have d: "distinct digit_chars" and l: "length digit_chars = 10"
    by (simp_all add: digit_chars_def)
  show "i < 10 \<Longrightarrow> j < 10 \<Longrightarrow> digit_chars ! i = digit_chars ! j \<Longrightarrow> i = j"
    using d l by (simp add: nth_eq_iff_index_eq)
qed

lemma show_nat_nonempty: "show_nat n \<noteq> []"
  by (subst show_nat.simps) simp

lemma show_nat_digits: "set (show_nat n) \<subseteq> set digit_chars"
proof (induction n rule: show_nat.induct)
  case (1 n)
  have l: "length digit_chars = 10" by (simp add: digit_chars_def)
  show ?case
  proof (cases "n < 10")
    case True
    then show ?thesis using l by (subst show_nat.simps) simp
  next
    case False
    have "n mod 10 < length digit_chars" using l by simp
    then have "digit_chars ! (n mod 10) \<in> set digit_chars" by (rule nth_mem)
    with False 1 show ?thesis by (subst show_nat.simps) simp
  qed
qed

lemma show_nat_inj: "show_nat m = show_nat n \<Longrightarrow> m = n"
proof (induction m arbitrary: n rule: show_nat.induct)
  case (1 m)
  show ?case
  proof (cases "m < 10")
    case m: True
    show ?thesis
    proof (cases "n < 10")
      case True
      with m 1(2) show ?thesis
        by (simp add: show_nat.simps [of m] show_nat.simps [of n] digit_chars_nth_inj)
    next
      case False
      with m 1(2) show ?thesis
        using show_nat_nonempty [of "n div 10"]
        by (auto simp: show_nat.simps [of m] show_nat.simps [of n])
    qed
  next
    case m: False
    show ?thesis
    proof (cases "n < 10")
      case True
      with m 1(2) show ?thesis
        using show_nat_nonempty [of "m div 10"]
        by (auto simp: show_nat.simps [of m] show_nat.simps [of n])
    next
      case False
      with m 1(2) have eq: "show_nat (m div 10) = show_nat (n div 10)"
        and d: "digit_chars ! (m mod 10) = digit_chars ! (n mod 10)"
        by (simp_all add: show_nat.simps [of m] show_nat.simps [of n])
      from 1(1) [OF m eq] have "m div 10 = n div 10" .
      moreover from d have "m mod 10 = n mod 10" by (simp add: digit_chars_nth_inj)
      ultimately show ?thesis by (metis div_mult_mod_eq)
    qed
  qed
qed

lemma digits_suffix_unique:
  assumes "set ds \<subseteq> D" "set ds' \<subseteq> D" "c \<noteq> []" "last c \<notin> D" "c' \<noteq> []" "last c' \<notin> D"
    and "c @ ds = c' @ ds'"
  shows "ds = ds'"
proof -
  have tw: "takeWhile (\<lambda>x. x \<in> D) (rev xs @ rev k) = rev xs"
    if "set xs \<subseteq> D" "k \<noteq> []" "last k \<notin> D" for xs k :: "'a list"
  proof -
    from that(2) have "k = butlast k @ [last k]" by simp
    then have k: "rev k = last k # rev (butlast k)"
      by (metis rev.simps(2) rev_append rev_rev_ident rev_singleton_conv append_Cons append_Nil)
    have "takeWhile (\<lambda>x. x \<in> D) (rev xs @ rev k) = rev xs @ takeWhile (\<lambda>x. x \<in> D) (rev k)"
      using that(1) by (intro takeWhile_append2) auto
    also have "takeWhile (\<lambda>x. x \<in> D) (rev k) = []"
      by (subst k) (simp add: that(3))
    finally show ?thesis by simp
  qed
  from assms(7) have "rev ds @ rev c = rev ds' @ rev c'"
    by (metis rev_append)
  then have "takeWhile (\<lambda>x. x \<in> D) (rev ds @ rev c) = takeWhile (\<lambda>x. x \<in> D) (rev ds' @ rev c')"
    by simp
  then have "rev ds = rev ds'"
    using tw [OF assms(1,3,4)] tw [OF assms(2,5,6)] by simp
  then show ?thesis by simp
qed

lemma category_shape: "c \<in> set categories \<Longrightarrow> c \<noteq> [] \<and> last c \<notin> set digit_chars"
  by (auto simp: categories_def digit_chars_def)

lemma alias_index_unique:
  "c \<in> set categories \<Longrightarrow> c' \<in> set categories \<Longrightarrow> c @ show_nat i = c' @ show_nat j \<Longrightarrow> i = j"
  using digits_suffix_unique [OF show_nat_digits show_nat_digits, of c c' i j]
  by (auto dest: category_shape show_nat_inj)

lemma indexed_from_iff:
  "indexed_from n m \<longleftrightarrow> (\<forall>j < length m. \<exists>c \<in> set categories. fst (m ! j) = c @ show_nat (n + j))"
  by (auto simp: indexed_from_def list_all_length)

lemma indexed_from_Nil: "indexed_from n []"
  by (simp add: indexed_from_def)

lemma indexed_from_fresh:
  assumes "indexed_from n m" "c \<in> set categories"
  shows "c @ show_nat (n + length m) \<notin> fst ` set m"
proof
  assume "c @ show_nat (n + length m) \<in> fst ` set m"
  then obtain j where j: "j < length m" and eq: "fst (m ! j) = c @ show_nat (n + length m)"
    by (auto simp: in_set_conv_nth)
  from assms(1) j obtain c' where "c' \<in> set categories" "fst (m ! j) = c' @ show_nat (n + j)"
    by (auto simp: indexed_from_iff)
  with eq assms(2) have "n + length m = n + j"
    by (auto dest: alias_index_unique)
  with j show False by simp
qed

lemma map_set_fresh: "k \<notin> fst ` set m \<Longrightarrow> map_set k v m = m @ [(k, v)]"
  by (simp add: map_set_def)

lemma indexed_from_snoc:
  assumes "indexed_from n m" "c \<in> set categories"
  shows "indexed_from n (m @ [(c @ show_nat (n + length m), v)])"
  using assms by (auto simp: indexed_from_iff nth_append less_Suc_eq)

lemma register_indexed:
  assumes "indexed_from n m" "c \<in> set categories"
  shows "map_set (c @ show_nat (n + length m)) v m = m @ [(c @ show_nat (n + length m), v)]"
    and "indexed_from n (map_set (c @ show_nat (n + length m)) v m)"
  using assms by (simp_all add: map_set_fresh indexed_from_fresh indexed_from_snoc)

lemma indexed_from_distinct:
  assumes "indexed_from n m"
  shows "distinct (map fst m)"
proof -
  have "i = j" if "i < length m" "j < length m" "fst (m ! i) = fst (m ! j)" for i j
  proof -
    from assms that(1) obtain c where c: "c \<in> set categories" "fst (m ! i) = c @ show_nat (n + i)"
      by (auto simp: indexed_from_iff)
    from assms that(2) obtain c' where c': "c' \<in> set categories" "fst (m ! j) = c' @ show_nat (n + j)"
      by (auto simp: indexed_from_iff)
    from c c' that(3) have "n + i = n + j" by (auto dest: alias_index_unique)
    then show ?thesis by simp
  qed
  then show ?thesis by (auto simp: distinct_conv_nth)
qed

lemma indexed_from_Cons:
  "indexed_from n ((k, v) # m) \<longleftrightarrow> (\<exists>c \<in> set categories. k = c @ show_nat n) \<and> indexed_from (Suc n) m"
proof -
  have "(\<forall>j < Suc (length m). P j) \<longleftrightarrow> P 0 \<and> (\<forall>j < length m. P (Suc j))" for P
    by (metis (no_types) less_Suc_eq_0_disj)
  then show ?thesis
    unfolding indexed_from_iff by simp
qed

text \<open>A callback keeps the store's shape when each call appends to an indexed store.\<close>

lemma replace_segs_indexed:
  assumes fn: "\<And>full caps st. indexed_from 0 st \<Longrightarrow>
                 prefix st (snd (fn full caps st)) \<and> indexed_from 0 (snd (fn full caps st))"
    and "indexed_from 0 st"
  shows "prefix st (snd (replace_segs fn segs st)) \<and> indexed_from 0 (snd (replace_segs fn segs st))"
  using assms(2)
proof (induction segs arbitrary: st)
  case Nil
  then show ?case by simp
next
  case (Cons seg segs)
  show ?case
  proof (cases seg)
    case (Plain p)
    with Cons show ?thesis by (simp add: split_beta)
  next
    case (Hit full caps)
    from fn [OF Cons.prems, of full caps]
    have 1: "prefix st (snd (fn full caps st))" and 2: "indexed_from 0 (snd (fn full caps st))"
      by simp_all
    from Cons.IH [OF 2]
    have "prefix (snd (fn full caps st)) (snd (replace_segs fn segs (snd (fn full caps st))))"
      and 3: "indexed_from 0 (snd (replace_segs fn segs (snd (fn full caps st))))"
      by simp_all
    with 1 have "prefix st (snd (replace_segs fn segs (snd (fn full caps st))))"
      by (meson prefix_order.trans)
    with 3 Hit show ?thesis by (simp add: split_beta)
  qed
qed

lemma category_mem:
  "''MM_LINK'' \<in> set categories" "''MM_ATMENTION'' \<in> set categories"
  "''MM_HASHTAG'' \<in> set categories" "''MM_SEARCHTERM'' \<in> set categories"
  "''MM_SELFMENTION'' \<in> set categories"
  by (simp_all add: categories_def)

lemma register_grows:
  assumes "indexed_from 0 st" "c \<in> set categories"
  shows "prefix st (map_set (c @ show_nat (length st)) v st)
         \<and> indexed_from 0 (map_set (c @ show_nat (length st)) v st)"
  using register_indexed [OF assms, of v] by simp

lemma replaceUrlWithToken_indexed:
  "indexed_from 0 st \<Longrightarrow>
   prefix st (snd (replaceUrlWithToken full caps st)) \<and> indexed_from 0 (snd (replaceUrlWithToken full caps st))"
  by (simp only: replaceUrlWithToken_def Let_def snd_conv register_grows category_mem simp_thms)

lemma replaceAtMentionWithToken_indexed:
  "indexed_from 0 st \<Longrightarrow>
   prefix st (snd (replaceAtMentionWithToken e full caps st))
   \<and> indexed_from 0 (snd (replaceAtMentionWithToken e full caps st))"
  by (simp only: replaceAtMentionWithToken_def Let_def split_beta snd_conv register_grows
        category_mem prefix_order.refl simp_thms split: if_split)

lemma replace_with_token_indexed:
  "c \<in> set categories \<Longrightarrow> indexed_from 0 st \<Longrightarrow>
   prefix st (snd (replace_with_token c mk full caps st))
   \<and> indexed_from 0 (snd (replace_with_token c mk full caps st))"
  by (simp only: replace_with_token_def Let_def split_beta snd_conv register_grows simp_thms)

lemma wrap_loop_indexed:
  "c \<in> set categories \<Longrightarrow> indexed_from n new \<Longrightarrow>
   indexed_from n (snd (wrap_loop test c mk n ts out new))"
proof (induction ts arbitrary: out new)
  case Nil
  then show ?case by simp
next
  case (Cons entry ts)
  obtain old_alias tok where entry: "entry = (old_alias, tok)" by (cases entry)
  show ?case
  proof (cases "test tok")
    case True
    from register_indexed(2) [OF Cons.prems(2,1)]
    have "indexed_from n (map_set (c @ show_nat (n + length new))
            \<lparr>tvalue = mk old_alias tok, originalText = originalText tok\<rparr> new)" .
    from Cons.IH [OF Cons.prems(1) this] True entry show ?thesis by (simp add: Let_def)
  next
    case False
    with Cons entry show ?thesis by simp
  qed
qed

lemma set_all_indexed:
  "indexed_from 0 st \<Longrightarrow> indexed_from (length st) new \<Longrightarrow>
   set_all new st = st @ new \<and> indexed_from 0 (st @ new)"
proof (induction new arbitrary: st)
  case Nil
  then show ?case by (simp add: set_all_def)
next
  case (Cons entry new)
  obtain k v where entry: "entry = (k, v)" by (cases entry)
  from Cons.prems(2) entry obtain c where c: "c \<in> set categories" "k = c @ show_nat (length st)"
    and rest: "indexed_from (Suc (length st)) new"
    by (auto simp: indexed_from_Cons)
  from register_indexed [OF Cons.prems(1) c(1), of v] c(2)
  have app: "map_set k v st = st @ [(k, v)]" and ix: "indexed_from 0 (st @ [(k, v)])"
    by simp_all
  from Cons.IH [OF ix] rest
  have "set_all new (st @ [(k, v)]) = (st @ [(k, v)]) @ new \<and> indexed_from 0 ((st @ [(k, v)]) @ new)"
    by simp
  with app entry show ?case by (simp add: set_all_def)
qed

lemma wrap_tokens_indexed:
  assumes "c \<in> set categories" "indexed_from 0 st"
  shows "prefix st (snd (wrap_tokens test c mk s st)) \<and> indexed_from 0 (snd (wrap_tokens test c mk s st))"
proof -
  have "indexed_from (length st) (snd (wrap_loop test c mk (length st) st s []))"
    by (rule wrap_loop_indexed [OF assms(1) indexed_from_Nil])
  from set_all_indexed [OF assms(2) this] show ?thesis
    by (simp add: wrap_tokens_def split_beta)
qed

lemma wrap_loop_exact:
  "c \<in> set categories \<Longrightarrow> indexed_from n new \<Longrightarrow>
   snd (wrap_loop test c mk n ts out new)
     = new @ map (\<lambda>(j, old_alias, tok).
                    (c @ show_nat (n + j), \<lparr>tvalue = mk old_alias tok, originalText = originalText tok\<rparr>))
               (enumerate (length new) (filter (\<lambda>(old_alias, tok). test tok) ts))"
proof (induction ts arbitrary: out new)
  case Nil
  then show ?case by simp
next
  case (Cons entry ts)
  obtain old_alias tok where entry: "entry = (old_alias, tok)" by (cases entry)
  show ?case
  proof (cases "test tok")
    case True
    let ?v = "\<lparr>tvalue = mk old_alias tok, originalText = originalText tok\<rparr>"
    from register_indexed [OF Cons.prems(2,1), of ?v]
    have app: "map_set (c @ show_nat (n + length new)) ?v new = new @ [(c @ show_nat (n + length new), ?v)]"
      and ix: "indexed_from n (map_set (c @ show_nat (n + length new)) ?v new)" by simp_all
    from Cons.IH [OF Cons.prems(1) ix, of "replace_str out old_alias (c @ show_nat (n + length new))"]
      True entry app
    show ?thesis by (simp add: Let_def)
  next
    case False
    with Cons.IH [OF Cons.prems] entry show ?thesis by simp
  qed
qed

lemma wrap_tokens_exact:
  assumes "c \<in> set categories" "indexed_from 0 st"
  shows "snd (wrap_tokens test c mk s st)
     = st @ map (\<lambda>(j, old_alias, tok).
                    (c @ show_nat (length st + j), \<lparr>tvalue = mk old_alias tok, originalText = originalText tok\<rparr>))
               (enumerate 0 (filter (\<lambda>(old_alias, tok). test tok) st))"
proof -
  have ix: "indexed_from (length st) (snd (wrap_loop test c mk (length st) st s []))"
    by (rule wrap_loop_indexed [OF assms(1) indexed_from_Nil])
  from set_all_indexed [OF assms(2) ix] wrap_loop_exact [OF assms(1) indexed_from_Nil, where n = "length st" and test = test and mk = mk and ts = st and out = s]
  show ?thesis
    by (simp add: wrap_tokens_def split_beta)
qed

lemma autolinkUrls_indexed:
  "indexed_from 0 st \<Longrightarrow>
   prefix st (snd (autolinkUrls e s st md)) \<and> indexed_from 0 (snd (autolinkUrls e s st md))"
  using replace_segs_indexed [of replaceUrlWithToken st, OF replaceUrlWithToken_indexed]
  by (simp add: autolinkUrls_def split_beta Let_def)

lemma autolinkAtMentions_indexed:
  "indexed_from 0 st \<Longrightarrow>
   prefix st (snd (autolinkAtMentions e s st)) \<and> indexed_from 0 (snd (autolinkAtMentions e s st))"
  using replace_segs_indexed [of "replaceAtMentionWithToken e" st, OF replaceAtMentionWithToken_indexed]
  by (simp add: autolinkAtMentions_def)

lemma wrap_then_scan_indexed:
  assumes "c \<in> set categories" "indexed_from 0 st"
  shows "prefix st (snd (replace_segs (replace_with_token c mk') segs (snd (wrap_tokens test c mk s st))))
       \<and> indexed_from 0 (snd (replace_segs (replace_with_token c mk') segs (snd (wrap_tokens test c mk s st))))"
proof -
  from wrap_tokens_indexed [OF assms]
  have 1: "prefix st (snd (wrap_tokens test c mk s st))"
    and 2: "indexed_from 0 (snd (wrap_tokens test c mk s st))" by simp_all
  from replace_segs_indexed [of "replace_with_token c mk'", OF replace_with_token_indexed [OF assms(1)] 2]
  have 3: "prefix (snd (wrap_tokens test c mk s st))
            (snd (replace_segs (replace_with_token c mk') segs (snd (wrap_tokens test c mk s st))))"
    and 4: "indexed_from 0 (snd (replace_segs (replace_with_token c mk') segs (snd (wrap_tokens test c mk s st))))"
    by simp_all
  from 1 3 4 show ?thesis by (meson prefix_order.trans)
qed

lemma autolinkHashtags_indexed:
  "indexed_from 0 st \<Longrightarrow>
   prefix st (snd (autolinkHashtags s st)) \<and> indexed_from 0 (snd (autolinkHashtags s st))"
  using wrap_then_scan_indexed [OF category_mem(3), of st]
  by (simp add: autolinkHashtags_def split_beta)

lemma highlightSearchTerm_indexed:
  "indexed_from 0 st \<Longrightarrow> highlightSearchTerm s st w = Some r \<Longrightarrow>
   prefix st (snd r) \<and> indexed_from 0 (snd r)"
  using wrap_then_scan_indexed [OF category_mem(4), of st]
  by (auto simp: highlightSearchTerm_def split_beta split: option.splits)

lemma highlight_keys_indexed:
  "indexed_from 0 st \<Longrightarrow> highlight_keys keys s st = Some r \<Longrightarrow>
   prefix st (snd r) \<and> indexed_from 0 (snd r)"
proof (induction keys arbitrary: s st)
  case Nil
  then show ?case by auto
next
  case (Cons key keys)
  from Cons.prems(2) obtain regexp where re: "word_regexp key = Some regexp"
    by (auto split: option.splits)
  let ?st' = "snd (replace_segs (replace_with_token ''MM_SELFMENTION'' mention_span) (scan regexp True s) st)"
  let ?s' = "fst (replace_segs (replace_with_token ''MM_SELFMENTION'' mention_span) (scan regexp True s) st)"
  from replace_segs_indexed [of "replace_with_token ''MM_SELFMENTION'' mention_span",
         OF replace_with_token_indexed [OF category_mem(5)] Cons.prems(1)]
  have 1: "prefix st ?st'" and 2: "indexed_from 0 ?st'" by simp_all
  from Cons.prems(2) re have "highlight_keys keys ?s' ?st' = Some r"
    by (simp add: split_beta)
  from Cons.IH [OF 2 this] 1 show ?case by (meson prefix_order.trans)
qed

lemma highlightCurrentMentions_indexed:
  assumes "indexed_from 0 st" "highlightCurrentMentions e s st = Some r"
  shows "prefix st (snd r) \<and> indexed_from 0 (snd r)"
proof -
  let ?w = "wrap_tokens (\<lambda>token. originalText token \<in> set (getCurrentMentionKeys e)) ''MM_SELFMENTION''
              (\<lambda>alias token. mention_span alias) s st"
  from wrap_tokens_indexed [OF category_mem(5) assms(1)]
  have 1: "prefix st (snd ?w)" and 2: "indexed_from 0 (snd ?w)" by simp_all
  from assms(2) have "highlight_keys (getCurrentMentionKeys e) (fst ?w) (snd ?w) = Some r"
    by (simp add: highlightCurrentMentions_def split_beta Let_def)
  from highlight_keys_indexed [OF 2 this] 1 show ?thesis by (meson prefix_order.trans)
qed

lemma tokenize_indexed:
  assumes "tokenize e s opts = Some (out, tokens)"
  shows "indexed_from 0 tokens"
proof -
  let ?md = "markdown opts = Some True"
  let ?r1 = "autolinkUrls e (if markdown opts \<noteq> Some True then sanitizeHtml s else s) [] ?md"
  let ?r2 = "autolinkAtMentions e (fst ?r1) (snd ?r1)"
  let ?r3 = "autolinkHashtags (fst ?r2) (snd ?r2)"
  have 1: "indexed_from 0 (snd ?r1)"
    using autolinkUrls_indexed [OF indexed_from_Nil] by blast
  have 2: "indexed_from 0 (snd ?r2)"
    using autolinkAtMentions_indexed [OF 1] by blast
  have 3: "indexed_from 0 (snd ?r3)"
    using autolinkHashtags_indexed [OF 2] by blast
  obtain r4 where r4: "(case searchTerm opts of None \<Rightarrow> Some ?r3
                        | Some word \<Rightarrow> if word = [] then Some ?r3
                                       else highlightSearchTerm (fst ?r3) (snd ?r3) word) = Some r4"
    and fin: "(if mentionHighlight opts = None \<or> mentionHighlight opts = Some True
               then highlightCurrentMentions e (fst r4) (snd r4) else Some r4) = Some (out, tokens)"
    using assms by (auto simp: tokenize_def split_beta Let_def split: option.splits if_splits)
  have 4: "indexed_from 0 (snd r4)"
    using r4 3 highlightSearchTerm_indexed [OF 3]
    by (auto split: option.splits if_splits)
  show ?thesis
    using fin 4 highlightCurrentMentions_indexed [OF 4]
    by (auto split: if_splits)
qed

text \<open>
  C9 (store key uniqueness, I1): the store that \<^verbatim>\<open>formatText\<close> has built has pairwise
  distinct keys, the key at position \<open>i\<close> being a category followed by \<open>i\<close>. This shape
  holds of the empty store and each pass keeps it: on a store of this shape a registration
  appends a new entry, never overwriting one, and each pass returns a store of this shape
  that extends the one it was given. The loop that wraps the tokens of the store adds to the
  pending \<^verbatim>\<open>newTokens\<close> exactly one entry for each token that satisfies its test, in
  order, under the category followed by the size of the store plus the size that
  \<^verbatim>\<open>newTokens\<close> had at that moment; so the store after the two loops is the store before
  them followed by these entries, one for each such token, and its keys are distinct.
\<close>

theorem store_keys_distinct:
  "(tokenize e text opts = Some (output, store) \<longrightarrow> indexed_from 0 store \<and> distinct (map fst store))
   \<and> (indexed_from 0 tokens \<longrightarrow>
        distinct (map fst tokens)
      \<and> (c \<in> set categories \<longrightarrow>
           map_set (c @ show_nat (length tokens)) v tokens = tokens @ [(c @ show_nat (length tokens), v)]
         \<and> snd (wrap_tokens test c mk_value working tokens)
             = tokens @ map (\<lambda>(j, old_alias, token).
                              (c @ show_nat (length tokens + j),
                               \<lparr>tvalue = mk_value old_alias token, originalText = originalText token\<rparr>))
                          (enumerate 0 (filter (\<lambda>(old_alias, token). test token) tokens))
         \<and> length (snd (wrap_tokens test c mk_value working tokens))
             = length tokens + length (filter (\<lambda>(old_alias, token). test token) tokens)
         \<and> distinct (map fst (snd (wrap_tokens test c mk_value working tokens))))
      \<and> prefix tokens (snd (autolinkUrls e text tokens md))
      \<and> indexed_from 0 (snd (autolinkUrls e text tokens md))
      \<and> prefix tokens (snd (autolinkAtMentions e text tokens))
      \<and> indexed_from 0 (snd (autolinkAtMentions e text tokens))
      \<and> prefix tokens (snd (autolinkHashtags text tokens))
      \<and> indexed_from 0 (snd (autolinkHashtags text tokens))
      \<and> (highlightSearchTerm text tokens word = Some r \<longrightarrow> prefix tokens (snd r) \<and> indexed_from 0 (snd r))
      \<and> (highlightCurrentMentions e text tokens = Some r' \<longrightarrow>
           prefix tokens (snd r') \<and> indexed_from 0 (snd r')))
   \<and> (indexed_from tokens_size (newTokens :: (string \<times> token) list) \<and> c' \<in> set categories \<longrightarrow>
        map_set (c' @ show_nat (tokens_size + length newTokens)) v' newTokens
          = newTokens @ [(c' @ show_nat (tokens_size + length newTokens), v')]
      \<and> snd (wrap_loop test' c' mk_value' tokens_size rest output' newTokens)
          = newTokens @ map (\<lambda>(j, old_alias, token).
                              (c' @ show_nat (tokens_size + j),
                               \<lparr>tvalue = mk_value' old_alias token, originalText = originalText token\<rparr>))
                          (enumerate (length newTokens) (filter (\<lambda>(old_alias, token). test' token) rest)))"
proof (intro conjI impI)
  assume "tokenize e text opts = Some (output, store)"
  then show "indexed_from 0 store" by (rule tokenize_indexed)
  then show "distinct (map fst store)" by (rule indexed_from_distinct)
next
  assume ix: "indexed_from 0 tokens"
  then show "distinct (map fst tokens)" by (rule indexed_from_distinct)
  show "map_set (c @ show_nat (length tokens)) v tokens = tokens @ [(c @ show_nat (length tokens), v)]"
    if "c \<in> set categories"
    using register_indexed(1) [OF ix that, of v] by simp
  show ex_eq: "snd (wrap_tokens test c mk_value working tokens)
             = tokens @ map (\<lambda>(j, old_alias, token).
                              (c @ show_nat (length tokens + j),
                               \<lparr>tvalue = mk_value old_alias token, originalText = originalText token\<rparr>))
                          (enumerate 0 (filter (\<lambda>(old_alias, token). test token) tokens))"
    if "c \<in> set categories"
    by (rule wrap_tokens_exact [OF that ix])
  show "length (snd (wrap_tokens test c mk_value working tokens))
             = length tokens + length (filter (\<lambda>(old_alias, token). test token) tokens)"
    if "c \<in> set categories"
    by (simp add: ex_eq [OF that])
  show "distinct (map fst (snd (wrap_tokens test c mk_value working tokens)))"
    if "c \<in> set categories"
    using wrap_tokens_indexed [OF that ix, of test mk_value working] by (blast intro: indexed_from_distinct)
  show "prefix tokens (snd (autolinkUrls e text tokens md))"
    and "indexed_from 0 (snd (autolinkUrls e text tokens md))"
    using autolinkUrls_indexed [OF ix] by simp_all
  show "prefix tokens (snd (autolinkAtMentions e text tokens))"
    and "indexed_from 0 (snd (autolinkAtMentions e text tokens))"
    using autolinkAtMentions_indexed [OF ix] by simp_all
  show "prefix tokens (snd (autolinkHashtags text tokens))"
    and "indexed_from 0 (snd (autolinkHashtags text tokens))"
    using autolinkHashtags_indexed [OF ix] by simp_all
  show "prefix tokens (snd r)" and "indexed_from 0 (snd r)"
    if "highlightSearchTerm text tokens word = Some r"
    using highlightSearchTerm_indexed [OF ix that] by simp_all
  show "prefix tokens (snd r')" and "indexed_from 0 (snd r')"
    if "highlightCurrentMentions e text tokens = Some r'"
    using highlightCurrentMentions_indexed [OF ix that] by simp_all
next
  assume a: "indexed_from tokens_size newTokens \<and> c' \<in> set categories"
  then show "map_set (c' @ show_nat (tokens_size + length newTokens)) v' newTokens
          = newTokens @ [(c' @ show_nat (tokens_size + length newTokens), v')]"
    using register_indexed(1) [of tokens_size newTokens c' v'] by simp
  from a show "snd (wrap_loop test' c' mk_value' tokens_size rest output' newTokens)
          = newTokens @ map (\<lambda>(j, old_alias, token).
                              (c' @ show_nat (tokens_size + j),
                               \<lparr>tvalue = mk_value' old_alias token, originalText = originalText token\<rparr>))
                          (enumerate (length newTokens) (filter (\<lambda>(old_alias, token). test' token) rest))"
    using wrap_loop_exact [of c' tokens_size newTokens test' mk_value' rest output'] by simp
qed

theorem store_keys_distinct_witness:
  "tokenize (example_env no_links [''#a'']) ''#a #a'' plain_options
     = Some (''MM_SELFMENTION2 MM_SELFMENTION3'',
             [(''MM_HASHTAG0'', \<lparr>tvalue = hashtag_anchor ''#a'', originalText = ''#a''\<rparr>),
              (''MM_HASHTAG1'', \<lparr>tvalue = hashtag_anchor ''#a'', originalText = ''#a''\<rparr>),
              (''MM_SELFMENTION2'', \<lparr>tvalue = mention_span ''MM_HASHTAG0'', originalText = ''#a''\<rparr>),
              (''MM_SELFMENTION3'', \<lparr>tvalue = mention_span ''MM_HASHTAG1'', originalText = ''#a''\<rparr>)])
   \<and> distinct [''MM_HASHTAG0'', ''MM_HASHTAG1'', ''MM_SELFMENTION2'', ''MM_SELFMENTION3'']
   \<and> indexed_from 0 [(''MM_HASHTAG0'', \<lparr>tvalue = hashtag_anchor ''#a'', originalText = ''#a''\<rparr>),
                      (''MM_HASHTAG1'', \<lparr>tvalue = hashtag_anchor ''#a'', originalText = ''#a''\<rparr>)]
   \<and> ''MM_SELFMENTION'' \<in> set categories
   \<and> snd (wrap_tokens (\<lambda>token. originalText token \<in> set [''#a'']) ''MM_SELFMENTION''
            (\<lambda>old_alias token. mention_span old_alias) ''MM_HASHTAG0 MM_HASHTAG1''
            [(''MM_HASHTAG0'', \<lparr>tvalue = hashtag_anchor ''#a'', originalText = ''#a''\<rparr>),
             (''MM_HASHTAG1'', \<lparr>tvalue = hashtag_anchor ''#a'', originalText = ''#a''\<rparr>)])
       = [(''MM_HASHTAG0'', \<lparr>tvalue = hashtag_anchor ''#a'', originalText = ''#a''\<rparr>),
          (''MM_HASHTAG1'', \<lparr>tvalue = hashtag_anchor ''#a'', originalText = ''#a''\<rparr>),
          (''MM_SELFMENTION2'', \<lparr>tvalue = mention_span ''MM_HASHTAG0'', originalText = ''#a''\<rparr>),
          (''MM_SELFMENTION3'', \<lparr>tvalue = mention_span ''MM_HASHTAG1'', originalText = ''#a''\<rparr>)]
   \<and> indexed_from 2 [(''MM_SELFMENTION2'', \<lparr>tvalue = mention_span ''MM_HASHTAG0'', originalText = ''#a''\<rparr>)]
   \<and> snd (wrap_loop (\<lambda>token. originalText token \<in> set [''#a'']) ''MM_SELFMENTION''
            (\<lambda>old_alias token. mention_span old_alias) 2
            [(''MM_HASHTAG1'', \<lparr>tvalue = hashtag_anchor ''#a'', originalText = ''#a''\<rparr>)]
            ''MM_SELFMENTION2 MM_HASHTAG1''
            [(''MM_SELFMENTION2'', \<lparr>tvalue = mention_span ''MM_HASHTAG0'', originalText = ''#a''\<rparr>)])
       = [(''MM_SELFMENTION2'', \<lparr>tvalue = mention_span ''MM_HASHTAG0'', originalText = ''#a''\<rparr>),
          (''MM_SELFMENTION3'', \<lparr>tvalue = mention_span ''MM_HASHTAG1'', originalText = ''#a''\<rparr>)]"
proof -
  let ?e = "example_env no_links [''#a'']"
  let ?h0 = "(''MM_HASHTAG0'', \<lparr>tvalue = hashtag_anchor ''#a'', originalText = ''#a''\<rparr>)"
  let ?h1 = "(''MM_HASHTAG1'', \<lparr>tvalue = hashtag_anchor ''#a'', originalText = ''#a''\<rparr>)"
  let ?s2 = "(''MM_SELFMENTION2'', \<lparr>tvalue = mention_span ''MM_HASHTAG0'', originalText = ''#a''\<rparr>)"
  let ?s3 = "(''MM_SELFMENTION3'', \<lparr>tvalue = mention_span ''MM_HASHTAG1'', originalText = ''#a''\<rparr>)"
  let ?test = "\<lambda>token. originalText token \<in> set [''#a'']"
  let ?mk = "\<lambda>(old_alias :: string) (token :: token). mention_span old_alias"
  have run: "tokenize ?e ''#a #a'' plain_options = Some (''MM_SELFMENTION2 MM_SELFMENTION3'', [?h0, ?h1, ?s2, ?s3])"
    by code_simp
  have ix: "indexed_from 0 [?h0, ?h1]" by code_simp
  have ix2: "indexed_from 2 [?s2]" by code_simp
  have cat: "''MM_SELFMENTION'' \<in> set categories" by (rule category_mem)
  have two: "show_nat (Suc (Suc 0)) = ''2''" and three: "show_nat (Suc (Suc (Suc 0))) = ''3''" by code_simp+
  note inst = store_keys_distinct [of ?e "''#a #a''" plain_options "''MM_SELFMENTION2 MM_SELFMENTION3''"
         "[?h0, ?h1, ?s2, ?s3]" "[?h0, ?h1]" "''MM_SELFMENTION''" _ ?test ?mk "''MM_HASHTAG0 MM_HASHTAG1''" _ _ _ _
         2 "[?s2]" "''MM_SELFMENTION''" _ ?test ?mk "[?h1]" "''MM_SELFMENTION2 MM_HASHTAG1''"]
  from inst run have 1: "distinct (map fst [?h0, ?h1, ?s2, ?s3])" by blast
  from inst ix cat
  have "snd (wrap_tokens ?test ''MM_SELFMENTION'' ?mk ''MM_HASHTAG0 MM_HASHTAG1'' [?h0, ?h1])
          = [?h0, ?h1] @ map (\<lambda>(j, old_alias, token).
                              (''MM_SELFMENTION'' @ show_nat (length [?h0, ?h1] + j),
                               \<lparr>tvalue = ?mk old_alias token, originalText = originalText token\<rparr>))
                          (enumerate 0 (filter (\<lambda>(old_alias, token). ?test token) [?h0, ?h1]))"
    by blast
  then have 2: "snd (wrap_tokens ?test ''MM_SELFMENTION'' ?mk ''MM_HASHTAG0 MM_HASHTAG1'' [?h0, ?h1]) = [?h0, ?h1, ?s2, ?s3]"
    by (simp add: two three)
  from inst ix2 cat
  have "snd (wrap_loop ?test ''MM_SELFMENTION'' ?mk 2 [?h1] ''MM_SELFMENTION2 MM_HASHTAG1'' [?s2])
          = [?s2] @ map (\<lambda>(j, old_alias, token).
                              (''MM_SELFMENTION'' @ show_nat (2 + j),
                               \<lparr>tvalue = ?mk old_alias token, originalText = originalText token\<rparr>))
                          (enumerate (length [?s2]) (filter (\<lambda>(old_alias, token). ?test token) [?h1]))"
    by blast
  then have 3: "snd (wrap_loop ?test ''MM_SELFMENTION'' ?mk 2 [?h1] ''MM_SELFMENTION2 MM_HASHTAG1'' [?s2]) = [?s2, ?s3]"
    by (simp add: three)
  from run 1 ix cat 2 ix2 3 show ?thesis by simp
qed

subsection \<open>Aliases and the input\<close>

text \<open>
  C3 (alias safety), as the claim states it, fails: the alias of the one hashtag of this
  input is in the input.
\<close>

theorem alias_in_input_counterexample:
  "tokenize (example_env no_links []) ''MM_HASHTAG0 is #taken'' plain_options
     = Some (''MM_HASHTAG0 is MM_HASHTAG0'',
             [(''MM_HASHTAG0'', \<lparr>tvalue = hashtag_anchor ''#taken'', originalText = ''#taken''\<rparr>)])
   \<and> sublist ''MM_HASHTAG0'' ''MM_HASHTAG0 is #taken''"
  by code_simp

lemma category_marker: "c \<in> set categories \<Longrightarrow> prefix ''MM_'' c"
  by (auto simp: categories_def)

text \<open>
  C3 (alias safety), amended: every alias of the store begins with \<^verbatim>\<open>MM_\<close>, so no
  alias occurs in an input text that does not contain \<^verbatim>\<open>MM_\<close>.
\<close>

theorem alias_absent_from_marker_free_input:
  "tokenize e text opts = Some (output, tokens) \<Longrightarrow> \<not> sublist ''MM_'' text \<Longrightarrow>
   (alias, token) \<in> set tokens \<Longrightarrow>
   prefix ''MM_'' alias \<and> \<not> sublist alias text"
proof -
  assume run: "tokenize e text opts = Some (output, tokens)"
    and free: "\<not> sublist ''MM_'' text" and mem: "(alias, token) \<in> set tokens"
  from mem obtain i where "i < length tokens" "tokens ! i = (alias, token)"
    by (auto simp: in_set_conv_nth)
  with tokenize_indexed [OF run] obtain c where "c \<in> set categories" "alias = c @ show_nat i"
    by (fastforce simp: indexed_from_iff)
  then have p: "prefix ''MM_'' alias"
    using category_marker by (metis prefix_order.trans prefixI)
  then have "sublist ''MM_'' alias" by (rule prefix_imp_sublist)
  with free have "\<not> sublist alias text"
    by (meson sublist_order.order.trans)
  with p show ?thesis by simp
qed

theorem alias_absent_from_marker_free_input_witness:
  "tokenize (example_env no_links []) ''see #general'' plain_options
     = Some (''see MM_HASHTAG0'',
             [(''MM_HASHTAG0'', \<lparr>tvalue = hashtag_anchor ''#general'', originalText = ''#general''\<rparr>)])
   \<and> \<not> sublist ''MM_'' ''see #general''
   \<and> prefix ''MM_'' ''MM_HASHTAG0'' \<and> \<not> sublist ''MM_HASHTAG0'' ''see #general''"
proof -
  let ?tok = "\<lparr>tvalue = hashtag_anchor ''#general'', originalText = ''#general''\<rparr>"
  have run: "tokenize (example_env no_links []) ''see #general'' plain_options
     = Some (''see MM_HASHTAG0'', [(''MM_HASHTAG0'', ?tok)])"
    by code_simp
  have free: "\<not> sublist ''MM_'' ''see #general''" by code_simp
  have mem: "(''MM_HASHTAG0'', ?tok) \<in> set [(''MM_HASHTAG0'', ?tok)]" by simp
  from alias_absent_from_marker_free_input [OF run free mem] run free show ?thesis by simp
qed

subsection \<open>Occurrences of an alias\<close>

lemma split_first_here: "prefix pat s \<Longrightarrow> split_first pat s = Some ([], drop (length pat) s)"
  by (cases s) auto

lemma passes_Nil: "passes pat []"
  by (simp add: passes_def option.map_ident split_def)

lemma passes_mfree:
  "CHR ''M'' \<notin> set p \<Longrightarrow> passes (CHR ''M'' # pat) p"
proof (induction p)
  case Nil
  show ?case by (rule passes_Nil)
next
  case (Cons c p)
  then have "passes (CHR ''M'' # pat) p" and "c \<noteq> CHR ''M''" by auto
  then show ?case
    by (auto simp: passes_def split: option.splits)
qed



lemma passes_then_nd: "passes pat x \<Longrightarrow> passes_nd pat x' \<Longrightarrow> passes_nd pat (x @ x')"
  by (auto simp: passes_def passes_nd_def option.map_comp comp_def split_def)













subsection \<open>The resolver after one scan\<close>



lemma replaceTokens_Nil: "replaceTokens s [] = s"
  by (simp add: replaceTokens_def)


subsection \<open>Nesting\<close>

lemma rendered_example:
  assumes "CHR ''M'' \<notin> set p"
  shows "replaceTokens (p @ ''see MM_SELFMENTION1'' @ q)
           [(''MM_HASHTAG0'', \<lparr>tvalue = hashtag_anchor ''#general'', originalText = ''#general''\<rparr>),
            (''MM_SELFMENTION1'', \<lparr>tvalue = mention_span ''MM_HASHTAG0'', originalText = ''#general''\<rparr>)]
         = p @ ''see <span class='mention-highlight'><a class='mention-link' href='#' data-hashtag='#general'>#general</a></span>'' @ q"
proof -
  let ?A = "\<lparr>tvalue = hashtag_anchor ''#general'', originalText = ''#general''\<rparr>"
  let ?B = "\<lparr>tvalue = mention_span ''MM_HASHTAG0'', originalText = ''#general''\<rparr>"
  have p1: "passes (CHR ''M'' # ''M_SELFMENTION1'') (p @ ''see '')"
    using assms by (intro passes_mfree) simp
  have "split_first ''MM_SELFMENTION1'' ((p @ ''see '') @ ''MM_SELFMENTION1'' @ q)
          = map_option (\<lambda>(u, w). ((p @ ''see '') @ u, w)) (split_first ''MM_SELFMENTION1'' (''MM_SELFMENTION1'' @ q))"
    using p1 unfolding passes_def by simp
  also have "split_first ''MM_SELFMENTION1'' (''MM_SELFMENTION1'' @ q) = Some ([], q)"
    using split_first_here [of "''MM_SELFMENTION1''" "''MM_SELFMENTION1'' @ q"] by simp
  finally have s1: "split_first ''MM_SELFMENTION1'' (p @ ''see MM_SELFMENTION1'' @ q) = Some (p @ ''see '', q)"
    by simp
  have r1: "replace_str (p @ ''see MM_SELFMENTION1'' @ q) ''MM_SELFMENTION1'' (tvalue ?B)
          = (p @ ''see <span class='mention-highlight'>'') @ ''MM_HASHTAG0'' @ (''</span>'' @ q)"
    using replace_str_found [OF s1, of "tvalue ?B"] by (simp add: mention_span_def)
  have p2: "passes (CHR ''M'' # ''M_HASHTAG0'') (p @ ''see <span class='mention-highlight'>'')"
    using assms by (intro passes_mfree) simp
  have "split_first ''MM_HASHTAG0'' ((p @ ''see <span class='mention-highlight'>'') @ ''MM_HASHTAG0'' @ (''</span>'' @ q))
          = map_option (\<lambda>(u, w). ((p @ ''see <span class='mention-highlight'>'') @ u, w))
              (split_first ''MM_HASHTAG0'' (''MM_HASHTAG0'' @ (''</span>'' @ q)))"
    using p2 unfolding passes_def by simp
  also have "split_first ''MM_HASHTAG0'' (''MM_HASHTAG0'' @ (''</span>'' @ q)) = Some ([], ''</span>'' @ q)"
    using split_first_here [of "''MM_HASHTAG0''" "''MM_HASHTAG0'' @ (''</span>'' @ q)"] by simp
  finally have s2: "split_first ''MM_HASHTAG0'' ((p @ ''see <span class='mention-highlight'>'') @ ''MM_HASHTAG0'' @ (''</span>'' @ q))
          = Some (p @ ''see <span class='mention-highlight'>'', ''</span>'' @ q)"
    by simp
  have r2: "replace_str ((p @ ''see <span class='mention-highlight'>'') @ ''MM_HASHTAG0'' @ (''</span>'' @ q)) ''MM_HASHTAG0'' (tvalue ?A)
          = (p @ ''see <span class='mention-highlight'>'') @ hashtag_anchor ''#general'' @ (''</span>'' @ q)"
    using replace_str_found [OF s2, of "tvalue ?A"] by (simp add: hashtag_anchor_def sq_def)
  let ?T1 = "(p @ ''see <span class='mention-highlight'>'') @ ''MM_HASHTAG0'' @ (''</span>'' @ q)"
  let ?T2 = "(p @ ''see <span class='mention-highlight'>'') @ hashtag_anchor ''#general'' @ (''</span>'' @ q)"
  have l1: "[(''MM_HASHTAG0'', ?A), (''MM_SELFMENTION1'', ?B)] = [(''MM_HASHTAG0'', ?A)] @ [(''MM_SELFMENTION1'', ?B)]"
    and l2: "[(''MM_HASHTAG0'', ?A)] = [] @ [(''MM_HASHTAG0'', ?A)]"
    by simp_all
  have step1: "replaceTokens (p @ ''see MM_SELFMENTION1'' @ q) [(''MM_HASHTAG0'', ?A), (''MM_SELFMENTION1'', ?B)]
        = replaceTokens ?T1 [(''MM_HASHTAG0'', ?A)]"
    unfolding l1 by (subst replaceTokens_snoc) (simp, simp only: r1)
  have step2: "replaceTokens ?T1 [(''MM_HASHTAG0'', ?A)] = ?T2"
    by (subst l2, subst replaceTokens_snoc) (simp, simp only: r2 replaceTokens_Nil)
  have "?T2 = p @ ''see <span class='mention-highlight'><a class='mention-link' href='#' data-hashtag='#general'>#general</a></span>'' @ q"
    by (simp add: hashtag_anchor_def sq_def)
  with step1 step2 show ?thesis by (simp only:)
qed

lemma tokenize_example_markdown:
  "tokenize (example_env no_links [''#general''] \<lparr>marked := renderer\<rparr>) ''see #general''
     (plain_options\<lparr>markdown := Some True\<rparr>)
   = Some (''see MM_SELFMENTION1'',
           [(''MM_HASHTAG0'', \<lparr>tvalue = hashtag_anchor ''#general'', originalText = ''#general''\<rparr>),
            (''MM_SELFMENTION1'', \<lparr>tvalue = mention_span ''MM_HASHTAG0'', originalText = ''#general''\<rparr>)])"
  by code_simp

lemma formatText_example_markdown:
  assumes "CHR ''M'' \<notin> set p"
  shows "fst (formatText (example_env no_links [''#general''] \<lparr>marked := (\<lambda>t. p @ t @ q)\<rparr>) ''see #general''
            (plain_options\<lparr>markdown := None\<rparr>))
         = Some (p @ ''see <span class='mention-highlight'><a class='mention-link' href='#' data-hashtag='#general'>#general</a></span>'' @ q)"
proof -
  have opts: "default_markdown (plain_options\<lparr>markdown := None\<rparr>) = plain_options\<lparr>markdown := Some True\<rparr>"
    by (simp add: default_markdown_def)
  show ?thesis
    unfolding formatText_def Let_def opts tokenize_example_markdown
    using rendered_example [OF assms, of q]
    by (simp add: plain_options_def)
qed

lemma wrap_tokens_empty: "wrap_tokens test c mk s [] = (s, [])"
  by (simp add: wrap_tokens_def set_all_def)

lemma formatText_example:
  "fst (formatText (example_env no_links [''#general'']) ''see #general'' plain_options)
     = Some ''see <span class='mention-highlight'><a class='mention-link' href='#' data-hashtag='#general'>#general</a></span>''"
  by code_simp

lemma replace_segs_scan:
  "c \<in> set categories \<Longrightarrow> indexed_from 0 st \<Longrightarrow>
   replace_segs (replace_with_token c mk) segs st
     = (scan_out c (length st) segs, st @ scan_new c mk (length st) segs)"
proof (induction segs arbitrary: st)
  case Nil
  then show ?case by simp
next
  case (Cons seg segs)
  show ?case
  proof (cases seg)
    case (Plain p)
    with Cons show ?thesis by (simp add: split_beta)
  next
    case (Hit full caps)
    obtain pre w where caps: "caps = (pre, w)" by (cases caps)
    let ?tok = "\<lparr>tvalue = mk w, originalText = w\<rparr>"
    from register_indexed [OF Cons.prems(2,1), of ?tok]
    have app: "map_set (c @ show_nat (length st)) ?tok st = st @ [(c @ show_nat (length st), ?tok)]"
      and ix: "indexed_from 0 (st @ [(c @ show_nat (length st), ?tok)])" by simp_all
    from Cons.IH [OF Cons.prems(1) ix] app Hit caps show ?thesis
      by (simp add: replace_with_token_def Let_def)
  qed
qed

text \<open>The run on the eleven hashtags, pass by pass.\<close>

lemma eleven_options:
  "markdown (plain_options\<lparr>searchTerm := Some ''#b''\<rparr>) = Some False"
  "searchTerm (plain_options\<lparr>searchTerm := Some ''#b''\<rparr>) = Some ''#b''"
  "mentionHighlight (plain_options\<lparr>searchTerm := Some ''#b''\<rparr>) = None"
  "singleline (plain_options\<lparr>searchTerm := Some ''#b''\<rparr>) = None"
  "default_markdown (plain_options\<lparr>searchTerm := Some ''#b''\<rparr>) = (plain_options\<lparr>searchTerm := Some ''#b''\<rparr>)"
  by (simp_all add: plain_options_def default_markdown_def)

lemma eleven_mentions:
  "autolinkAtMentions (example_env no_links [''#b''])
     (fst (autolinkUrls (example_env no_links [''#b'']) (sanitizeHtml ''#a #b #c #d #e #f #g #h #i #j #k'') [] False))
     (snd (autolinkUrls (example_env no_links [''#b'']) (sanitizeHtml ''#a #b #c #d #e #f #g #h #i #j #k'') [] False))
   = (''#a #b #c #d #e #f #g #h #i #j #k'', [])"
  by code_simp

lemma eleven_hashtags:
  "autolinkHashtags ''#a #b #c #d #e #f #g #h #i #j #k'' [] = (''MM_HASHTAG0 MM_HASHTAG1 MM_HASHTAG2 MM_HASHTAG3 MM_HASHTAG4 MM_HASHTAG5 MM_HASHTAG6 MM_HASHTAG7 MM_HASHTAG8 MM_HASHTAG9 MM_HASHTAG10'', take 11 eleven_store)"
proof -
  have "autolinkHashtags ''#a #b #c #d #e #f #g #h #i #j #k'' []
     = replace_segs (replace_with_token ''MM_HASHTAG'' hashtag_anchor) (scan hashtag_matcher True ''#a #b #c #d #e #f #g #h #i #j #k'') []"
    by (simp only: autolinkHashtags_def wrap_tokens_empty split_conv Let_def)
  also have "\<dots> = (scan_out ''MM_HASHTAG'' (length ([] :: (string \<times> token) list)) (scan hashtag_matcher True ''#a #b #c #d #e #f #g #h #i #j #k''),
                    [] @ scan_new ''MM_HASHTAG'' hashtag_anchor (length ([] :: (string \<times> token) list))
                           (scan hashtag_matcher True ''#a #b #c #d #e #f #g #h #i #j #k''))"
    by (rule replace_segs_scan [OF category_mem(3) indexed_from_Nil])
  also have "\<dots> = (''MM_HASHTAG0 MM_HASHTAG1 MM_HASHTAG2 MM_HASHTAG3 MM_HASHTAG4 MM_HASHTAG5 MM_HASHTAG6 MM_HASHTAG7 MM_HASHTAG8 MM_HASHTAG9 MM_HASHTAG10'', take 11 eleven_store)"
    by code_simp
  finally show ?thesis .
qed

lemma eleven_search:
  "highlightSearchTerm ''MM_HASHTAG0 MM_HASHTAG1 MM_HASHTAG2 MM_HASHTAG3 MM_HASHTAG4 MM_HASHTAG5 MM_HASHTAG6 MM_HASHTAG7 MM_HASHTAG8 MM_HASHTAG9 MM_HASHTAG10'' (take 11 eleven_store) ''#b'' = Some (''MM_HASHTAG0 MM_SEARCHTERM11 MM_HASHTAG2 MM_HASHTAG3 MM_HASHTAG4 MM_HASHTAG5 MM_HASHTAG6 MM_HASHTAG7 MM_HASHTAG8 MM_HASHTAG9 MM_HASHTAG10'', take 12 eleven_store)"
  by code_simp

lemma eleven_self:
  "highlightCurrentMentions (example_env no_links [''#b'']) ''MM_HASHTAG0 MM_SEARCHTERM11 MM_HASHTAG2 MM_HASHTAG3 MM_HASHTAG4 MM_HASHTAG5 MM_HASHTAG6 MM_HASHTAG7 MM_HASHTAG8 MM_HASHTAG9 MM_HASHTAG10'' (take 12 eleven_store) = Some (''MM_HASHTAG0 MM_SELFMENTION13 MM_HASHTAG2 MM_HASHTAG3 MM_HASHTAG4 MM_HASHTAG5 MM_HASHTAG6 MM_HASHTAG7 MM_HASHTAG8 MM_HASHTAG9 MM_SELFMENTION120'', eleven_store)"
  by code_simp

lemma eleven_resolved:
  "replaceTokens ''MM_HASHTAG0 MM_SELFMENTION13 MM_HASHTAG2 MM_HASHTAG3 MM_HASHTAG4 MM_HASHTAG5 MM_HASHTAG6 MM_HASHTAG7 MM_HASHTAG8 MM_HASHTAG9 MM_SELFMENTION120'' eleven_store = (hashtag_anchor ''#a'' @ '' '' @ mention_span (search_span (hashtag_anchor ''#b''))
             @ '' '' @ hashtag_anchor ''#c'' @ '' '' @ hashtag_anchor ''#d'' @ '' '' @ hashtag_anchor ''#e''
             @ '' '' @ hashtag_anchor ''#f'' @ '' '' @ hashtag_anchor ''#g'' @ '' '' @ hashtag_anchor ''#h''
             @ '' '' @ hashtag_anchor ''#i'' @ '' '' @ hashtag_anchor ''#j''
             @ '' '' @ mention_span ''MM_HASHTAG1'' @ ''0'')"
  by code_simp

lemma eleven_tokenize:
  "tokenize (example_env no_links [''#b'']) ''#a #b #c #d #e #f #g #h #i #j #k'' (plain_options\<lparr>searchTerm := Some ''#b''\<rparr>) = Some (''MM_HASHTAG0 MM_SELFMENTION13 MM_HASHTAG2 MM_HASHTAG3 MM_HASHTAG4 MM_HASHTAG5 MM_HASHTAG6 MM_HASHTAG7 MM_HASHTAG8 MM_HASHTAG9 MM_SELFMENTION120'', eleven_store)"
proof -
  have ne: "''#b'' \<noteq> []" by simp
  show ?thesis
    unfolding tokenize_def
    by (simp only: Let_def split_beta eleven_options eleven_mentions eleven_hashtags eleven_search
          eleven_self fst_conv snd_conv option.case if_True if_False simp_thms option.inject
          option.distinct bool.simps ne prod.case)
qed

lemma eleven_formatText:
  "fst (formatText (example_env no_links [''#b'']) ''#a #b #c #d #e #f #g #h #i #j #k'' (plain_options\<lparr>searchTerm := Some ''#b''\<rparr>)) = Some (hashtag_anchor ''#a'' @ '' '' @ mention_span (search_span (hashtag_anchor ''#b''))
             @ '' '' @ hashtag_anchor ''#c'' @ '' '' @ hashtag_anchor ''#d'' @ '' '' @ hashtag_anchor ''#e''
             @ '' '' @ hashtag_anchor ''#f'' @ '' '' @ hashtag_anchor ''#g'' @ '' '' @ hashtag_anchor ''#h''
             @ '' '' @ hashtag_anchor ''#i'' @ '' '' @ hashtag_anchor ''#j''
             @ '' '' @ mention_span ''MM_HASHTAG1'' @ ''0'')"
  unfolding formatText_def
  by (simp only: Let_def eleven_options eleven_tokenize option.case prod.case eleven_resolved fst_conv
        if_False simp_thms option.inject option.distinct bool.simps)

text \<open>
  C1 (nesting correctness via reverse-order resolution): the resolver does replace the
  alias of a wrapping token first, and \<^verbatim>\<open>"see #general"\<close> with the mention key
  \<^verbatim>\<open>#general\<close> comes out as the span around the whole anchor (lemmas
  \<open>formatText_example\<close> and \<open>formatText_example_markdown\<close>). But the alias inside the wrapper is
  not always resolved. On \<^verbatim>\<open>#a #b #c #d #e #f #g #h #i #j #k\<close> with the search term
  \<^verbatim>\<open>#b\<close> and the mention key \<^verbatim>\<open>#b\<close>, the token \<^verbatim>\<open>MM_SELFMENTION12\<close> wraps
  \<^verbatim>\<open>MM_HASHTAG1\<close>; that alias had already left the text for \<^verbatim>\<open>MM_SEARCHTERM11\<close>, so the
  loop of \<^verbatim>\<open>highlightCurrentMentions\<close> puts its new alias over the first ten characters
  of \<^verbatim>\<open>MM_HASHTAG10\<close>, and the result ends in the span around the unresolved alias
  \<^verbatim>\<open>MM_HASHTAG1\<close>, followed by a stray \<^verbatim>\<open>0\<close>, where the anchor of \<^verbatim>\<open>#k\<close> belongs.
\<close>

theorem wrapped_alias_left_unresolved:
  "tokenize (example_env no_links [''#b'']) ''#a #b #c #d #e #f #g #h #i #j #k'' (plain_options\<lparr>searchTerm := Some ''#b''\<rparr>) = Some (''MM_HASHTAG0 MM_SELFMENTION13 MM_HASHTAG2 MM_HASHTAG3 MM_HASHTAG4 MM_HASHTAG5 MM_HASHTAG6 MM_HASHTAG7 MM_HASHTAG8 MM_HASHTAG9 MM_SELFMENTION120'', eleven_store)
   \<and> map_of eleven_store ''MM_HASHTAG1''
       = Some \<lparr>tvalue = hashtag_anchor ''#b'', originalText = ''#b''\<rparr>
   \<and> map_of eleven_store ''MM_SELFMENTION12''
       = Some \<lparr>tvalue = mention_span ''MM_HASHTAG1'', originalText = ''#b''\<rparr>
   \<and> fst (formatText (example_env no_links [''#b'']) ''#a #b #c #d #e #f #g #h #i #j #k'' (plain_options\<lparr>searchTerm := Some ''#b''\<rparr>))
       = Some (hashtag_anchor ''#a'' @ '' '' @ mention_span (search_span (hashtag_anchor ''#b''))
             @ '' '' @ hashtag_anchor ''#c'' @ '' '' @ hashtag_anchor ''#d'' @ '' '' @ hashtag_anchor ''#e''
             @ '' '' @ hashtag_anchor ''#f'' @ '' '' @ hashtag_anchor ''#g'' @ '' '' @ hashtag_anchor ''#h''
             @ '' '' @ hashtag_anchor ''#i'' @ '' '' @ hashtag_anchor ''#j''
             @ '' '' @ mention_span ''MM_HASHTAG1'' @ ''0'')"
proof -
  have "map_of eleven_store ''MM_HASHTAG1''
       = Some \<lparr>tvalue = hashtag_anchor ''#b'', originalText = ''#b''\<rparr>"
    by (simp add: eleven_store_def)
  moreover have "map_of eleven_store ''MM_SELFMENTION12''
       = Some \<lparr>tvalue = mention_span ''MM_HASHTAG1'', originalText = ''#b''\<rparr>"
    by (simp add: eleven_store_def)
  ultimately show ?thesis
    using eleven_tokenize eleven_formatText by (simp only: simp_thms)
qed

subsection \<open>The hashtag scan\<close>

lemma digit_is_word: "c \<in> set digit_chars \<Longrightarrow> is_word_char c"
  by (auto simp: is_word_char_def is_alnum_def)


lemma digit_start_word: "digit_start s \<Longrightarrow> next_is_word s"
  by (auto simp: digit_start_def next_is_word_def digit_is_word split: list.splits)











subsection \<open>Aliases and the result\<close>











end
